theory Spec2Isabelle
  imports Main "HOL-Library.AList"
begin

section \<open>PSP metadata writer: the model\<close>

text \<open>
  A shallow embedding of \<^verbatim>\<open>psp_metadata_writer.py\<close> (class \<^verbatim>\<open>PSPMetadataWriter\<close>).
  File names are strings of ASCII characters: Python's \<^verbatim>\<open>\d\<close>, \<^verbatim>\<open>\s\<close> and
  \<^verbatim>\<open>re.IGNORECASE\<close> are modelled on their ASCII range (the decimal digits
  \<^verbatim>\<open>0\<close>..\<^verbatim>\<open>9\<close>, the ten ASCII characters for which \<^verbatim>\<open>str.isspace\<close> holds,
  and the 26 letter pairs), which is what they do on such names.
\<close>

subsection \<open>Characters\<close>

definition is_digit :: "char \<Rightarrow> bool" where
  "is_digit c = (c \<in> set ''0123456789'')"

definition is_space :: "char \<Rightarrow> bool" where
  "is_space c =
     (c \<in> set [CHR 0x09, CHR 0x0A, CHR 0x0B, CHR 0x0C, CHR 0x0D,
                CHR 0x1C, CHR 0x1D, CHR 0x1E, CHR 0x1F, CHR 0x20])"

definition ascii_lower :: "char \<Rightarrow> char" where
  "ascii_lower c =
     (case map_of (zip ''ABCDEFGHIJKLMNOPQRSTUVWXYZ'' ''abcdefghijklmnopqrstuvwxyz'') c of
        Some l \<Rightarrow> l
      | None \<Rightarrow> c)"

text \<open>A literal of a pattern against a character of the subject; \<open>ic\<close> is \<^verbatim>\<open>re.IGNORECASE\<close>.\<close>

definition lit_matches :: "bool \<Rightarrow> char \<Rightarrow> char \<Rightarrow> bool" where
  "lit_matches ic p c = (if ic then ascii_lower p = ascii_lower c else p = c)"

subsection \<open>The fragment of Python's regular expressions the source uses\<close>

text \<open>
  The seven patterns of \<^verbatim>\<open>extract_episode_number\<close> are sequences of four kinds of
  element: a literal character, the capturing group \<^verbatim>\<open>(\d+)\<close>, the run \<^verbatim>\<open>\s*\<close> and
  the anchor \<^verbatim>\<open>^\<close>.
\<close>

datatype rx = Lit char | Digits | Spaces | Caret

text \<open>
  A greedy repetition tries the longest run first and gives characters back one at a time
  until the rest of the pattern matches: \<open>backtrack lo n f\<close> tries \<open>f n\<close>, \<open>f (n - 1)\<close>,
  ... down to \<open>f lo\<close> and returns the first success.
\<close>

fun backtrack :: "nat \<Rightarrow> nat \<Rightarrow> (nat \<Rightarrow> 'a option) \<Rightarrow> 'a option" where
  "backtrack lo 0 f = (if 0 < lo then None else f 0)"
| "backtrack lo (Suc m) f =
     (if Suc m < lo then None
      else (case f (Suc m) of Some r \<Rightarrow> Some r | None \<Rightarrow> backtrack lo m f))"

text \<open>
  Matching a pattern at one position of the subject: \<open>pos\<close> is the index of that position
  (the anchor needs it), \<open>s\<close> the subject from there on. The result is the list of the
  captured groups, in the order of the pattern.
\<close>

fun rx_match :: "bool \<Rightarrow> rx list \<Rightarrow> nat \<Rightarrow> string \<Rightarrow> string list option" where
  "rx_match ic [] pos s = Some []"
| "rx_match ic (Lit p # ps) pos s =
     (case s of
        [] \<Rightarrow> None
      | c # cs \<Rightarrow> if lit_matches ic p c then rx_match ic ps (Suc pos) cs else None)"
| "rx_match ic (Caret # ps) pos s = (if pos = 0 then rx_match ic ps pos s else None)"
| "rx_match ic (Digits # ps) pos s =
     backtrack 1 (length (takeWhile is_digit s))
       (\<lambda>n. map_option (Cons (take n s)) (rx_match ic ps (pos + n) (drop n s)))"
| "rx_match ic (Spaces # ps) pos s =
     backtrack 0 (length (takeWhile is_space s))
       (\<lambda>n. rx_match ic ps (pos + n) (drop n s))"

text \<open>\<^verbatim>\<open>re.search\<close>: the match at the leftmost position where the pattern matches.\<close>

fun rx_search_from :: "bool \<Rightarrow> rx list \<Rightarrow> nat \<Rightarrow> string \<Rightarrow> string list option" where
  "rx_search_from ic ps pos [] = rx_match ic ps pos []"
| "rx_search_from ic ps pos (c # cs) =
     (case rx_match ic ps pos (c # cs) of
        Some gs \<Rightarrow> Some gs
      | None \<Rightarrow> rx_search_from ic ps (Suc pos) cs)"

definition re_search :: "rx list \<Rightarrow> string \<Rightarrow> bool \<Rightarrow> string list option" where
  "re_search ps s ic = rx_search_from ic ps 0 s"

text \<open>The patterns, in the order of the source (lines 126 to 164).\<close>

definition re_s_e :: "rx list" where
  "re_s_e = [Lit CHR ''S'', Digits, Lit CHR ''E'', Digits]"

definition re_s_x_e :: "rx list" where
  "re_s_x_e = [Digits, Lit CHR ''x'', Digits]"

definition re_ep :: "rx list" where
  "re_ep = [Lit CHR ''E'', Lit CHR ''P'', Digits]"

definition re_dash :: "rx list" where
  "re_dash = [Caret, Digits, Lit CHR ''-'']"

definition re_episode :: "rx list" where
  "re_episode = map Lit ''Episode'' @ [Spaces, Digits]"

definition re_ep_short :: "rx list" where
  "re_ep_short = [Lit CHR ''E'', Lit CHR ''p'', Spaces, Digits]"

definition re_number :: "rx list" where
  "re_number = [Digits]"

subsection \<open>Numbers: \<^verbatim>\<open>int(...)\<close> of a digit string and the format \<^verbatim>\<open>{n:02d}\<close>\<close>

text \<open>
  \<^verbatim>\<open>int\<close> is applied to the groups \<^verbatim>\<open>(\d+)\<close> only, that is to strings of decimal
  digits, which it reads in base ten; a file name is far shorter than the 4300 digits
  from which the interpreter refuses the conversion.
\<close>

definition digit_value :: "char \<Rightarrow> int" where
  "digit_value c = int (of_char c) - 48"

definition int_of_digits :: "string \<Rightarrow> int" where
  "int_of_digits ds = foldl (\<lambda>a c. 10 * a + digit_value c) 0 ds"

function dec_digits :: "nat \<Rightarrow> string" where
  "dec_digits n =
     (if n < 10 then [char_of (48 + n)]
      else dec_digits (n div 10) @ [char_of (48 + n mod 10)])"
  by pat_completeness auto
termination
  by (relation "measure (\<lambda>n. n)") auto

declare dec_digits.simps [simp del]

text \<open>Width two, padded with zeros after the sign: \<^verbatim>\<open>f"{n:02d}"\<close>.\<close>

definition fmt_02d :: "int \<Rightarrow> string" where
  "fmt_02d n =
     (if n < 0 then CHR ''-'' # dec_digits (nat (- n))
      else replicate (2 - length (dec_digits (nat n))) CHR ''0'' @ dec_digits (nat n))"

text \<open>\<^verbatim>\<open>m.group(i)\<close> for \<open>i \<ge> 1\<close>: the groups are numbered from one.\<close>

definition group :: "string list \<Rightarrow> nat \<Rightarrow> string" where
  "group gs i = gs ! (i - 1)"

subsection \<open>\<^verbatim>\<open>extract_episode_number\<close>\<close>

definition extract_episode_number :: "string \<Rightarrow> string option" where
  "extract_episode_number filename =
     (case re_search re_s_e filename True of
        Some s_e_match \<Rightarrow>
          Some (''S'' @ fmt_02d (int_of_digits (group s_e_match 1))
                @ ''E'' @ fmt_02d (int_of_digits (group s_e_match 2)))
      | None \<Rightarrow>
     (case re_search re_s_x_e filename True of
        Some s_x_e_match \<Rightarrow>
          Some (''S'' @ fmt_02d (int_of_digits (group s_x_e_match 1))
                @ ''E'' @ fmt_02d (int_of_digits (group s_x_e_match 2)))
      | None \<Rightarrow>
     (case re_search re_ep filename True of
        Some ep_match \<Rightarrow> Some (''S01E'' @ fmt_02d (int_of_digits (group ep_match 1)))
      | None \<Rightarrow>
     (case re_search re_dash filename False of
        Some dash_match \<Rightarrow> Some (''S01E'' @ fmt_02d (int_of_digits (group dash_match 1)))
      | None \<Rightarrow>
     (case re_search re_episode filename True of
        Some episode_match \<Rightarrow> Some (''E'' @ fmt_02d (int_of_digits (group episode_match 1)))
      | None \<Rightarrow>
     (case re_search re_ep_short filename True of
        Some ep_short_match \<Rightarrow>
          Some (''E'' @ fmt_02d (int_of_digits (group ep_short_match 1)))
      | None \<Rightarrow>
     (case re_search re_number filename False of
        Some number_match \<Rightarrow> Some (''E'' @ fmt_02d (int_of_digits (group number_match 1)))
      | None \<Rightarrow> None)))))))"

subsection \<open>What the patterns mean\<close>

text \<open>
  The declarative reading of a pattern, independent of the order in which the matcher
  tries the alternatives: \<open>accepts ic ps pos s\<close> holds when some prefix of \<open>s\<close> has
  the shape \<open>ps\<close> describes, and \<open>contains ic ps s\<close> when \<open>s\<close> has such a substring.
  The matcher of the model is compared with this reading below.
\<close>

fun accepts :: "bool \<Rightarrow> rx list \<Rightarrow> nat \<Rightarrow> string \<Rightarrow> bool" where
  "accepts ic [] pos s = True"
| "accepts ic (Lit p # ps) pos s =
     (\<exists>c cs. s = c # cs \<and> lit_matches ic p c \<and> accepts ic ps (Suc pos) cs)"
| "accepts ic (Caret # ps) pos s = (pos = 0 \<and> accepts ic ps pos s)"
| "accepts ic (Digits # ps) pos s =
     (\<exists>ds rest. s = ds @ rest \<and> ds \<noteq> [] \<and> (\<forall>c\<in>set ds. is_digit c)
        \<and> accepts ic ps (pos + length ds) rest)"
| "accepts ic (Spaces # ps) pos s =
     (\<exists>ws rest. s = ws @ rest \<and> (\<forall>c\<in>set ws. is_space c)
        \<and> accepts ic ps (pos + length ws) rest)"

definition contains :: "bool \<Rightarrow> rx list \<Rightarrow> string \<Rightarrow> bool" where
  "contains ic ps s = (\<exists>pre rest. s = pre @ rest \<and> accepts ic ps (length pre) rest)"


text \<open>
  The occurrences the properties below speak about, written out: \<open>S<digits>E<digits>\<close>
  and \<open>EP<digits>\<close> in any case, after the prefix \<open>pre\<close>, with the given digit strings.
\<close>

definition s_e_occurrence :: "string \<Rightarrow> string \<Rightarrow> string \<Rightarrow> string \<Rightarrow> bool" where
  "s_e_occurrence filename pre d1 d2 =
     (\<exists>c1 c2 post. filename = pre @ c1 # d1 @ c2 # d2 @ post
        \<and> (c1 = CHR ''S'' \<or> c1 = CHR ''s'') \<and> d1 \<noteq> [] \<and> (\<forall>c\<in>set d1. is_digit c)
        \<and> (c2 = CHR ''E'' \<or> c2 = CHR ''e'') \<and> d2 \<noteq> [] \<and> (\<forall>c\<in>set d2. is_digit c))"

definition ep_occurrence :: "string \<Rightarrow> string \<Rightarrow> string \<Rightarrow> bool" where
  "ep_occurrence filename pre ds =
     (\<exists>c1 c2 post. filename = pre @ c1 # c2 # ds @ post
        \<and> (c1 = CHR ''E'' \<or> c1 = CHR ''e'') \<and> (c2 = CHR ''P'' \<or> c2 = CHR ''p'')
        \<and> ds \<noteq> [] \<and> (\<forall>c\<in>set ds. is_digit c))"

subsection \<open>Path names\<close>

text \<open>
  Every path of the program is a file of the one directory it works in, written here by
  its name in that directory. \<^verbatim>\<open>PurePath.suffix\<close> is the part of the name from its last
  dot on, unless that dot is the first or the last character; \<^verbatim>\<open>stem\<close> is the rest
  and \<^verbatim>\<open>with_suffix\<close> replaces the suffix.
\<close>

definition py_suffix :: "string \<Rightarrow> string" where
  "py_suffix name =
     (let ext = rev (takeWhile (\<lambda>c. c \<noteq> CHR ''.'') (rev name)) in
      if CHR ''.'' \<in> set name \<and> ext \<noteq> [] \<and> Suc (length ext) < length name
      then CHR ''.'' # ext else [])"

definition stem :: "string \<Rightarrow> string" where
  "stem name = take (length name - length (py_suffix name)) name"

definition with_suffix :: "string \<Rightarrow> string \<Rightarrow> string" where
  "with_suffix name suffix = stem name @ suffix"

subsection \<open>The directory and the outside world\<close>

text \<open>
  The directory is the list of its entries, in the order the system lists them, each
  with the content of the file; \<open>'c\<close> is the type of file contents. Names are compared
  as they are written (a case-sensitive file system).
\<close>

type_synonym 'c directory = "(string \<times> 'c) list"

definition path_exists :: "'c directory \<Rightarrow> string \<Rightarrow> bool" where
  "path_exists d name = (map_of d name \<noteq> None)"

definition write_file :: "'c directory \<Rightarrow> string \<Rightarrow> 'c \<Rightarrow> 'c directory" where
  "write_file d name c = AList.update name c d"

definition remove_file :: "'c directory \<Rightarrow> string \<Rightarrow> 'c directory" where
  "remove_file d name = AList.delete name d"

text \<open>\<^verbatim>\<open>directory.glob("*.mp4")\<close>: the entries whose name ends in \<^verbatim>\<open>.mp4\<close>.\<close>

definition is_mp4 :: "string \<Rightarrow> bool" where
  "is_mp4 name = (4 \<le> length name \<and> drop (length name - 4) name = ''.mp4'')"

definition glob_mp4 :: "'c directory \<Rightarrow> string list" where
  "glob_mp4 d = filter is_mp4 (map fst d)"

text \<open>
  What the program prints, one constructor for each \<^verbatim>\<open>print\<close> of the source (the text
  of an exception, which some of them end with, is left out), and what it runs.
\<close>

datatype msg =
    Processing_movies_in
  | Processing_tv_show_in string
  | Found_cover_image string
  | Cover_converted
  | Cover_conversion_failed
  | No_cover_image
  | Found_mp4_files nat
  | Processing string
  | Episode string
  | Metadata_added string
  | Thumbnail_created string
  | Thumbnail_failed string
  | Metadata_failed string
  | Error_converting_image
  | Error_adding_metadata string
  | Error_creating_thm string
  | Cleaning_up
  | Removed string
  | Failed_to_remove string
  | Cleaned_up nat
  | Now_compatible
  | Nothing_to_clean
  | Processing_complete
  | Ready_for_psp
  | Unexpected_error

datatype event = Print msg | Subprocess "string list"

record 'c world =
  files :: "'c directory"
  trace :: "event list"

definition say :: "msg \<Rightarrow> 'c world \<Rightarrow> 'c world" where
  "say m w = w\<lparr>trace := trace w @ [Print m]\<rparr>"

text \<open>
  The outside world decides how each external operation ends. A run of the transcoder
  either exits with status zero, leaving the complete output \<open>c\<close> at its output path
  (\<open>Tool_ok c\<close>), or with another status (\<^verbatim>\<open>CalledProcessError\<close>), leaving there nothing
  new (\<open>Tool_failed None\<close>) or a partial file (\<open>Tool_failed (Some p)\<close>). A copy
  (\<^verbatim>\<open>shutil.copy2\<close>) writes its destination in place: it succeeds, or raises before it
  has written anything (\<open>Copy_failed None\<close>), or raises and leaves at the destination
  what it has written so far (\<open>Copy_failed (Some p)\<close>). A rename (\<^verbatim>\<open>os.rename\<close>) and a
  removal (\<^verbatim>\<open>unlink\<close>) succeed or raise, changing nothing when they raise.
\<close>

datatype 'c tool_result = Tool_ok 'c | Tool_failed "'c option"

datatype 'c copy_result = Copy_ok | Copy_failed "'c option"

record 'c env =
  ffmpeg :: "'c directory \<Rightarrow> string list \<Rightarrow> 'c tool_result"
  rename_fails :: "'c directory \<Rightarrow> string \<Rightarrow> string \<Rightarrow> bool"
  copy2_result :: "'c directory \<Rightarrow> string \<Rightarrow> string \<Rightarrow> 'c copy_result"
  unlink_fails :: "'c directory \<Rightarrow> string \<Rightarrow> bool"

text \<open>
  A call returns a value or raises an exception that the callee does not catch (an
  \<^verbatim>\<open>OSError\<close> of a copy or a removal).
\<close>

datatype 'a outcome = Returned 'a | Raised

text \<open>
  \<^verbatim>\<open>subprocess.run(cmd, check=True, capture_output=True)\<close> on a transcoder command
  whose output path is \<open>output\<close>: \<open>True\<close> when it returns, \<open>False\<close> when it raises
  \<^verbatim>\<open>CalledProcessError\<close>.
\<close>

definition subprocess_run :: "'c env \<Rightarrow> string list \<Rightarrow> string \<Rightarrow> 'c world \<Rightarrow> bool \<times> 'c world" where
  "subprocess_run e cmd output w =
     (let w1 = w\<lparr>trace := trace w @ [Subprocess cmd]\<rparr> in
      case ffmpeg e (files w) cmd of
        Tool_ok c \<Rightarrow> (True, w1\<lparr>files := write_file (files w1) output c\<rparr>)
      | Tool_failed None \<Rightarrow> (False, w1)
      | Tool_failed (Some p) \<Rightarrow> (False, w1\<lparr>files := write_file (files w1) output p\<rparr>))"

text \<open>
  \<^verbatim>\<open>shutil.move(src, dst)\<close> for two files of the directory, as the library has it:
  \<^verbatim>\<open>os.rename(src, dst)\<close> first, which replaces the destination in one step; when
  the rename raises an \<^verbatim>\<open>OSError\<close> (on Windows it does whenever the destination
  exists) the library catches it and goes on with \<^verbatim>\<open>copy2(src, dst)\<close> followed by
  \<^verbatim>\<open>os.unlink(src)\<close>, and an exception of either of these leaves the call. A source
  that does not exist makes both the rename and the copy raise before anything is
  written.
\<close>

definition shutil_move :: "'c env \<Rightarrow> string \<Rightarrow> string \<Rightarrow> 'c world \<Rightarrow> unit outcome \<times> 'c world" where
  "shutil_move e src dst w =
     (case map_of (files w) src of
        None \<Rightarrow> (Raised, w)
      | Some c \<Rightarrow>
          if \<not> rename_fails e (files w) src dst
          then (Returned (), w\<lparr>files := write_file (remove_file (files w) src) dst c\<rparr>)
          else (case copy2_result e (files w) src dst of
                  Copy_ok \<Rightarrow>
                    (let w1 = w\<lparr>files := write_file (files w) dst c\<rparr> in
                     if unlink_fails e (files w1) src then (Raised, w1)
                     else (Returned (), w1\<lparr>files := remove_file (files w1) src\<rparr>))
                | Copy_failed None \<Rightarrow> (Raised, w)
                | Copy_failed (Some p) \<Rightarrow>
                    (Raised, w\<lparr>files := write_file (files w) dst p\<rparr>)))"

subsection \<open>\<^verbatim>\<open>find_cover_image\<close> and \<^verbatim>\<open>convert_to_psp_thumbnail\<close>\<close>

definition cover_patterns :: "string list" where
  "cover_patterns =
     [''cover.jpg'', ''cover.jpeg'', ''cover.png'', ''cover.bmp'', ''cover.gif'',
      ''Cover.jpg'', ''Cover.jpeg'', ''Cover.png'', ''Cover.bmp'', ''Cover.gif'',
      ''COVER.jpg'', ''COVER.jpeg'', ''COVER.png'', ''COVER.bmp'', ''COVER.gif'']"

definition find_cover_image :: "'c directory \<Rightarrow> string option" where
  "find_cover_image d = find (path_exists d) cover_patterns"

definition convert_to_psp_thumbnail :: "'c env \<Rightarrow> string \<Rightarrow> string \<Rightarrow> 'c world \<Rightarrow> bool \<times> 'c world" where
  "convert_to_psp_thumbnail e image_path output_path w =
     (let cmd = [''ffmpeg'', ''-i'', image_path, ''-vf'', ''scale=160:120'', ''-q:v'', ''2'',
                 ''-y'', output_path] in
      case subprocess_run e cmd output_path w of
        (True, w1) \<Rightarrow> (True, w1)
      | (False, w1) \<Rightarrow> (False, say Error_converting_image w1))"

subsection \<open>\<^verbatim>\<open>add_metadata_to_video\<close> and \<^verbatim>\<open>create_psp_thumbnail_file\<close>\<close>

text \<open>The metadata is the dictionary of the source, as the list of its items in order.\<close>

definition remux_cmd :: "string \<Rightarrow> (string \<times> string) list \<Rightarrow> string list" where
  "remux_cmd video metadata =
     [''ffmpeg'', ''-i'', video, ''-c'', ''copy'']
     @ concat (map (\<lambda>(key, val). [''-metadata'', key @ ''='' @ val]) metadata)
     @ [''-y'', with_suffix video ''.temp.mp4'']"

definition add_metadata_to_video ::
  "'c env \<Rightarrow> string \<Rightarrow> (string \<times> string) list \<Rightarrow> 'c world \<Rightarrow> bool outcome \<times> 'c world" where
  "add_metadata_to_video e video metadata w =
     (let temp_path = with_suffix video ''.temp.mp4'' in
      case subprocess_run e (remux_cmd video metadata) temp_path w of
        (True, w1) \<Rightarrow>
          (case shutil_move e temp_path video w1 of
             (Returned u, w2) \<Rightarrow> (Returned True, w2)
           | (Raised, w2) \<Rightarrow> (Raised, w2))
      | (False, w1) \<Rightarrow>
          (let w2 = say (Error_adding_metadata video) w1 in
           if path_exists (files w2) temp_path
           then (if unlink_fails e (files w2) temp_path then (Raised, w2)
                 else (Returned False, w2\<lparr>files := remove_file (files w2) temp_path\<rparr>))
           else (Returned False, w2)))"

definition create_psp_thumbnail_file :: "'c env \<Rightarrow> string \<Rightarrow> string \<Rightarrow> 'c world \<Rightarrow> bool \<times> 'c world" where
  "create_psp_thumbnail_file e video thumbnail_path w =
     (let thm_path = with_suffix video ''.THM'' in
      case map_of (files w) thumbnail_path of
        None \<Rightarrow> (False, say (Error_creating_thm video) w)
      | Some c \<Rightarrow>
          (case copy2_result e (files w) thumbnail_path thm_path of
             Copy_ok \<Rightarrow> (True, w\<lparr>files := write_file (files w) thm_path c\<rparr>)
           | Copy_failed None \<Rightarrow> (False, say (Error_creating_thm video) w)
           | Copy_failed (Some p) \<Rightarrow>
               (False, say (Error_creating_thm video)
                  (w\<lparr>files := write_file (files w) thm_path p\<rparr>))))"

subsection \<open>\<^verbatim>\<open>cleanup_for_psp\<close>\<close>

definition files_to_remove :: "string list" where
  "files_to_remove =
     [''thumbnail.jpg'',
      ''cover.jpg'', ''cover.jpeg'', ''cover.png'', ''cover.bmp'', ''cover.gif'',
      ''Cover.jpg'', ''Cover.jpeg'', ''Cover.png'', ''Cover.bmp'', ''Cover.gif'',
      ''COVER.jpg'', ''COVER.jpeg'', ''COVER.png'', ''COVER.bmp'', ''COVER.gif'']"

text \<open>The loop of lines 327 to 335, with the counter \<^verbatim>\<open>removed_count\<close>.\<close>

fun remove_each :: "'c env \<Rightarrow> string list \<Rightarrow> nat \<times> 'c world \<Rightarrow> nat \<times> 'c world" where
  "remove_each e [] (removed_count, w) = (removed_count, w)"
| "remove_each e (filename # rest) (removed_count, w) =
     (if path_exists (files w) filename
      then (if unlink_fails e (files w) filename
            then remove_each e rest (removed_count, say (Failed_to_remove filename) w)
            else remove_each e rest
                   (Suc removed_count,
                    say (Removed filename) (w\<lparr>files := remove_file (files w) filename\<rparr>)))
      else remove_each e rest (removed_count, w))"

definition cleanup_for_psp :: "'c env \<Rightarrow> 'c world \<Rightarrow> 'c world" where
  "cleanup_for_psp e w =
     (case remove_each e files_to_remove (0, say Cleaning_up w) of
        (removed_count, w1) \<Rightarrow>
          if 0 < removed_count then say Now_compatible (say (Cleaned_up removed_count) w1)
          else say Nothing_to_clean w1)"

subsection \<open>\<^verbatim>\<open>process_movies\<close> and \<^verbatim>\<open>process_tv_show\<close>\<close>

text \<open>Lines 213 to 226, the same in both: the cover image and the thumbnail made of it.\<close>

definition prepare_thumbnail :: "'c env \<Rightarrow> 'c world \<Rightarrow> string option \<times> 'c world" where
  "prepare_thumbnail e w =
     (case find_cover_image (files w) of
        Some cover_image \<Rightarrow>
          (case convert_to_psp_thumbnail e cover_image ''thumbnail.jpg''
                  (say (Found_cover_image cover_image) w) of
             (True, w1) \<Rightarrow> (Some ''thumbnail.jpg'', say Cover_converted w1)
           | (False, w1) \<Rightarrow> (None, say Cover_conversion_failed w1))
      | None \<Rightarrow> (None, say No_cover_image w))"

text \<open>
  Lines 241 to 252, the same in both: the video is tagged and, when that succeeded and
  the thumbnail is there, gets its sidecar. A failure that \<^verbatim>\<open>add_metadata_to_video\<close>
  returns is reported and the loop goes on; an exception it raises leaves the loop.
\<close>

definition tag_video ::
  "'c env \<Rightarrow> string option \<Rightarrow> string \<Rightarrow> (string \<times> string) list \<Rightarrow> 'c world
     \<Rightarrow> unit outcome \<times> 'c world" where
  "tag_video e thumbnail_path video_file metadata w =
     (case add_metadata_to_video e video_file metadata w of
        (Returned True, w1) \<Rightarrow>
          (let w2 = say (Metadata_added video_file) w1 in
           case thumbnail_path of
             None \<Rightarrow> (Returned (), w2)
           | Some t \<Rightarrow>
               if path_exists (files w2) t
               then (case create_psp_thumbnail_file e video_file t w2 of
                       (True, w3) \<Rightarrow> (Returned (), say (Thumbnail_created video_file) w3)
                     | (False, w3) \<Rightarrow> (Returned (), say (Thumbnail_failed video_file) w3))
               else (Returned (), w2))
      | (Returned False, w1) \<Rightarrow> (Returned (), say (Metadata_failed video_file) w1)
      | (Raised, w1) \<Rightarrow> (Raised, w1))"

definition movie_metadata :: "string \<Rightarrow> (string \<times> string) list" where
  "movie_metadata video_file = [(''title'', stem video_file), (''album'', ''Movies'')]"

definition process_movie_file ::
  "'c env \<Rightarrow> string option \<Rightarrow> string \<Rightarrow> 'c world \<Rightarrow> unit outcome \<times> 'c world" where
  "process_movie_file e thumbnail_path video_file w =
     tag_video e thumbnail_path video_file (movie_metadata video_file)
       (say (Processing video_file) w)"

text \<open>
  The Python condition \<^verbatim>\<open>if episode_number:\<close> holds for a string that is not empty.
\<close>

definition tv_metadata :: "string \<Rightarrow> string \<Rightarrow> (string \<times> string) list" where
  "tv_metadata show_name video_file =
     (let episode_number = extract_episode_number (stem video_file);
          episode_title = stem video_file;
          metadata = [(''title'', episode_title), (''album'', show_name), (''show'', show_name)]
      in case episode_number of
           None \<Rightarrow> metadata
         | Some tag \<Rightarrow> if tag = [] then metadata else metadata @ [(''episode_id'', tag)])"

definition process_tv_file ::
  "'c env \<Rightarrow> string \<Rightarrow> string option \<Rightarrow> string \<Rightarrow> 'c world \<Rightarrow> unit outcome \<times> 'c world" where
  "process_tv_file e show_name thumbnail_path video_file w =
     (let w1 = say (Processing video_file) w;
          w2 = (case extract_episode_number (stem video_file) of
                  None \<Rightarrow> w1
                | Some tag \<Rightarrow> if tag = [] then w1 else say (Episode tag) w1)
      in tag_video e thumbnail_path video_file (tv_metadata show_name video_file) w2)"

text \<open>The loop over the videos: an exception ends it.\<close>

fun for_each_video ::
  "(string \<Rightarrow> 'c world \<Rightarrow> unit outcome \<times> 'c world) \<Rightarrow> string list \<Rightarrow> 'c world
     \<Rightarrow> unit outcome \<times> 'c world" where
  "for_each_video body [] w = (Returned (), w)"
| "for_each_video body (video_file # rest) w =
     (case body video_file w of
        (Returned u, w1) \<Rightarrow> for_each_video body rest w1
      | (Raised, w1) \<Rightarrow> (Raised, w1))"

definition process_movies :: "'c env \<Rightarrow> 'c world \<Rightarrow> unit outcome \<times> 'c world" where
  "process_movies e w =
     (case prepare_thumbnail e (say Processing_movies_in w) of
        (thumbnail_path, w1) \<Rightarrow>
          (let mp4_files = glob_mp4 (files w1);
               w2 = say (Found_mp4_files (length mp4_files)) w1
           in case for_each_video (process_movie_file e thumbnail_path) mp4_files w2 of
                (Returned u, w3) \<Rightarrow> (Returned (), cleanup_for_psp e w3)
              | (Raised, w3) \<Rightarrow> (Raised, w3)))"

definition process_tv_show :: "'c env \<Rightarrow> string \<Rightarrow> 'c world \<Rightarrow> unit outcome \<times> 'c world" where
  "process_tv_show e show_name w =
     (case prepare_thumbnail e (say (Processing_tv_show_in show_name) w) of
        (thumbnail_path, w1) \<Rightarrow>
          (let mp4_files = glob_mp4 (files w1);
               w2 = say (Found_mp4_files (length mp4_files)) w1
           in case for_each_video (process_tv_file e show_name thumbnail_path) mp4_files w2 of
                (Returned u, w3) \<Rightarrow> (Returned (), cleanup_for_psp e w3)
              | (Raised, w3) \<Rightarrow> (Raised, w3)))"

subsection \<open>\<^verbatim>\<open>run\<close>, after its three questions\<close>

text \<open>
  The directory, the kind of content and the name of the show are what the prompts of
  \<^verbatim>\<open>run\<close> return. The result is the exit status: \<^verbatim>\<open>except Exception\<close> reports an
  exception of the processing and exits with status one.
\<close>

datatype content_type = Movie | Tv_show string

definition run :: "'c env \<Rightarrow> content_type \<Rightarrow> 'c world \<Rightarrow> nat \<times> 'c world" where
  "run e content w =
     (case (case content of
              Movie \<Rightarrow> process_movies e w
            | Tv_show show_name \<Rightarrow> process_tv_show e show_name w) of
        (Returned u, w1) \<Rightarrow> (0, say Ready_for_psp (say Processing_complete w1))
      | (Raised, w1) \<Rightarrow> (1, say Unexpected_error w1))"

subsection \<open>Reading the trace\<close>

text \<open>
  What a trace says about the videos: the videos whose turn began, the outcome reported
  for each (\<open>True\<close> for \<^verbatim>\<open>Metadata added\<close>, \<open>False\<close> for \<^verbatim>\<open>Failed to add metadata\<close>)
  and the commands that were run.
\<close>

fun started :: "event \<Rightarrow> string option" where
  "started (Print (Processing v)) = Some v"
| "started ev = None"

fun tagging_report :: "event \<Rightarrow> (string \<times> bool) option" where
  "tagging_report (Print (Metadata_added v)) = Some (v, True)"
| "tagging_report (Print (Metadata_failed v)) = Some (v, False)"
| "tagging_report ev = None"

fun subprocess_cmd :: "event \<Rightarrow> string list option" where
  "subprocess_cmd (Subprocess cmd) = Some cmd"
| "subprocess_cmd ev = None"

text \<open>
  What happened to the video \<open>v\<close>, given the world \<open>wi\<close> in which its turn began, a
  later world \<open>w'\<close>, the report that was printed for it and a trace \<open>tr\<close> that
  holds its turn:

    \<^item> when the transcoder, run on it in \<open>wi\<close>, fails, the report is \<^verbatim>\<open>Failed to add
      metadata\<close> and in \<open>w'\<close> the file is what it was;
    \<^item> when the transcoder succeeds with the output \<open>c\<close>, the report is \<^verbatim>\<open>Metadata
      added\<close> and in \<open>w'\<close> the file is \<open>c\<close>; and when there is a thumbnail, it
      exists and the sidecar is copied from it in the directory that the tagging left:
      a copy that succeeds is reported and in \<open>w'\<close> the sidecar is the thumbnail, a
      copy that fails is reported as failed.
\<close>

definition video_outcome ::
  "'c env \<Rightarrow> string option \<Rightarrow> (string \<times> string) list \<Rightarrow> string \<Rightarrow> 'c world \<Rightarrow> 'c world
     \<Rightarrow> string \<times> bool \<Rightarrow> event list \<Rightarrow> bool" where
  "video_outcome e th md v wi w' report tr \<longleftrightarrow>
     (case ffmpeg e (files wi) (remux_cmd v md) of
        Tool_failed part \<Rightarrow>
          report = (v, False) \<and> map_of (files w') v = map_of (files wi) v
      | Tool_ok c \<Rightarrow>
          report = (v, True) \<and> map_of (files w') v = Some c
          \<and> (case th of
                None \<Rightarrow> True
              | Some t \<Rightarrow>
                  path_exists (files wi) t
                  \<and> (case copy2_result e (files (snd (add_metadata_to_video e v md wi)))
                            t (with_suffix v ''.THM'') of
                        Copy_ok \<Rightarrow>
                          Print (Thumbnail_created v) \<in> set tr
                          \<and> map_of (files w') (with_suffix v ''.THM'') = map_of (files wi) t
                      | Copy_failed part \<Rightarrow> Print (Thumbnail_failed v) \<in> set tr)))"

text \<open>
  What it means for a batch to keep the failures of its videos apart. \<open>body\<close> is the
  body of the loop, \<open>md\<close> the metadata it gives a video, \<open>banner\<close> the first message
  and \<open>result\<close> what the batch returned for the world \<open>w\<close>. The batch returns; up to
  the cleanup every listed video has had its turn and its report, in the order of the
  listing; and for the video \<open>v\<close> at each position \<open>i\<close>, with \<open>wi\<close> the world in
  which its turn begins (the loop run over the \<open>i\<close> videos before it), the file of
  \<open>v\<close> and the thumbnail are still in \<open>wi\<close> what they were when the loop began, and
  \<open>video_outcome\<close> holds of \<open>wi\<close>, the world that the batch returns and the
  \<open>i\<close>-th report.
\<close>

definition isolated_batch ::
  "'c env \<Rightarrow> (string option \<Rightarrow> string \<Rightarrow> 'c world \<Rightarrow> unit outcome \<times> 'c world)
     \<Rightarrow> (string \<Rightarrow> (string \<times> string) list) \<Rightarrow> msg \<Rightarrow> 'c world
     \<Rightarrow> unit outcome \<times> 'c world \<Rightarrow> bool" where
  "isolated_batch e body md banner w result \<longleftrightarrow>
     (case prepare_thumbnail e (say banner w) of
        (th, w1) \<Rightarrow>
          (let vs = glob_mp4 (files w);
               w2 = say (Found_mp4_files (length vs)) w1
           in \<exists>w' tr1 tr2.
                result = (Returned (), w')
                \<and> trace w' = trace w @ tr1 @ Print Cleaning_up # tr2
                \<and> Print Cleaning_up \<notin> set tr1
                \<and> List.map_filter started tr1 = vs
                \<and> map fst (List.map_filter tagging_report tr1) = vs
                \<and> (\<forall>i<length vs.
                      (let v = vs ! i;
                           wi = snd (for_each_video (body th) (take i vs) w2)
                       in map_of (files wi) v = map_of (files w) v
                          \<and> map_of (files wi) ''thumbnail.jpg'' = map_of (files w1) ''thumbnail.jpg''
                          \<and> video_outcome e th (md v) v wi w'
                               (List.map_filter tagging_report tr1 ! i) tr1))))"

subsection \<open>A sample environment\<close>

text \<open>
  For the examples: file contents are strings, the transcoder fails on the inputs listed
  in \<open>bad\<close> (leaving a partial file) and on a missing input, and otherwise writes
  the input's content marked as tagged; every removal raises when \<open>unlink_raises\<close>;
  every rename is refused when \<open>rename_refused\<close>, so that \<^verbatim>\<open>shutil.move\<close> copies;
  every copy succeeds.
\<close>

definition sample_env :: "string list \<Rightarrow> bool \<Rightarrow> bool \<Rightarrow> string env" where
  "sample_env bad unlink_raises rename_refused =
     \<lparr>ffmpeg = (\<lambda>d cmd.
         case cmd of
           a # b # input # rest \<Rightarrow>
             if input \<in> set bad then Tool_failed (Some ''partial'')
             else (case map_of d input of
                     Some c \<Rightarrow> Tool_ok (''tagged '' @ c)
                   | None \<Rightarrow> Tool_failed None)
         | _ \<Rightarrow> Tool_failed None),
      rename_fails = (\<lambda>d src dst. rename_refused),
      copy2_result = (\<lambda>d src dst. Copy_ok),
      unlink_fails = (\<lambda>d name. unlink_raises)\<rparr>"

section \<open>The matcher\<close>

subsection \<open>Backtracking and runs of characters\<close>

lemma backtrack_None_iff:
  "backtrack lo n f = None \<longleftrightarrow> (\<forall>k. lo \<le> k \<and> k \<le> n \<longrightarrow> f k = None)"
proof (induction n)
  case 0
  show ?case by auto
next
  case (Suc n)
  show ?case
  proof (cases "Suc n < lo")
    case True
    then show ?thesis by auto
  next
    case False
    show ?thesis
    proof (cases "f (Suc n)")
      case None
      with False Suc show ?thesis by (auto simp: le_Suc_eq)
    next
      case (Some r)
      with False show ?thesis by (auto intro!: exI[of _ "Suc n"])
    qed
  qed
qed

lemma backtrack_Some_iff:
  "backtrack lo n f = Some r \<longleftrightarrow>
     (\<exists>k. lo \<le> k \<and> k \<le> n \<and> f k = Some r \<and> (\<forall>j. k < j \<and> j \<le> n \<longrightarrow> f j = None))"
proof (induction n)
  case 0
  show ?case by auto
next
  case (Suc n)
  show ?case
  proof (cases "Suc n < lo")
    case True
    then show ?thesis by auto
  next
    case False
    show ?thesis
    proof (cases "f (Suc n)")
      case None
      have "backtrack lo (Suc n) f = backtrack lo n f"
        using False None by simp
      also have "\<dots> = Some r \<longleftrightarrow>
          (\<exists>k. lo \<le> k \<and> k \<le> n \<and> f k = Some r \<and> (\<forall>j. k < j \<and> j \<le> n \<longrightarrow> f j = None))"
        by (rule Suc.IH)
      also have "\<dots> \<longleftrightarrow>
          (\<exists>k. lo \<le> k \<and> k \<le> Suc n \<and> f k = Some r \<and> (\<forall>j. k < j \<and> j \<le> Suc n \<longrightarrow> f j = None))"
        using None by (metis le_Suc_eq option.distinct(1))
      finally show ?thesis .
    next
      case (Some r')
      have "backtrack lo (Suc n) f = Some r'"
        using False Some by simp
      moreover have "(\<exists>k. lo \<le> k \<and> k \<le> Suc n \<and> f k = Some r \<and> (\<forall>j. k < j \<and> j \<le> Suc n \<longrightarrow> f j = None))
          \<longleftrightarrow> r' = r"
      proof
        assume "\<exists>k. lo \<le> k \<and> k \<le> Suc n \<and> f k = Some r \<and> (\<forall>j. k < j \<and> j \<le> Suc n \<longrightarrow> f j = None)"
        then obtain k where k: "k \<le> Suc n" "f k = Some r" "\<forall>j. k < j \<and> j \<le> Suc n \<longrightarrow> f j = None"
          by blast
        have "k = Suc n"
        proof (rule ccontr)
          assume "k \<noteq> Suc n"
          with k(1) have "k < Suc n" by simp
          with k(3) have "f (Suc n) = None" by simp
          with Some show False by simp
        qed
        with k(2) Some show "r' = r" by simp
      next
        assume "r' = r"
        with Some False show "\<exists>k. lo \<le> k \<and> k \<le> Suc n \<and> f k = Some r \<and> (\<forall>j. k < j \<and> j \<le> Suc n \<longrightarrow> f j = None)"
          by (intro exI[of _ "Suc n"]) auto
      qed
      ultimately show ?thesis by auto
    qed
  qed
qed

lemma backtrack_top_only:
  assumes "\<And>k. lo \<le> k \<Longrightarrow> k < n \<Longrightarrow> f k = None"
  shows "backtrack lo n f = (if lo \<le> n then f n else None)"
proof (cases "backtrack lo n f")
  case None
  then show ?thesis by (auto simp: backtrack_None_iff)
next
  case (Some r)
  then obtain k where k: "lo \<le> k" "k \<le> n" "f k = Some r"
    by (auto simp: backtrack_Some_iff)
  have "k = n"
    using assms[of k] k by (cases "k < n") auto
  with k Some show ?thesis by simp
qed

text \<open>Runs of characters.\<close>

lemma prefix_run_le_takeWhile:
  "s = ds @ rest \<Longrightarrow> \<forall>c\<in>set ds. P c \<Longrightarrow> length ds \<le> length (takeWhile P s)"
  by (simp add: takeWhile_append2)

lemma take_within_takeWhile:
  "k \<le> length (takeWhile P s) \<Longrightarrow> \<forall>c\<in>set (take k s). P c"
proof (induction s arbitrary: k)
  case Nil
  then show ?case by simp
next
  case (Cons a s)
  then show ?case by (cases k) (auto split: if_splits)
qed

lemma drop_within_takeWhile_hd:
  assumes "k < length (takeWhile P s)"
  shows "\<exists>c cs. drop k s = c # cs \<and> P c"
proof -
  have len: "k < length s"
    using assms length_takeWhile_le[of P s] by simp
  then have "drop k s = s ! k # drop (Suc k) s"
    by (simp add: Cons_nth_drop_Suc)
  moreover have "s ! k = takeWhile P s ! k"
    using assms by (simp add: takeWhile_nth)
  moreover have "P (takeWhile P s ! k)"
    using assms by (meson nth_mem set_takeWhileD)
  ultimately show ?thesis by auto
qed

lemma take_takeWhile_length [simp]: "take (length (takeWhile P s)) s = takeWhile P s"
  by (induction s) auto

lemma drop_takeWhile_length [simp]: "drop (length (takeWhile P s)) s = dropWhile P s"
  by (induction s) auto

lemma munch_unique:
  assumes "s = ds @ rest" "\<forall>c\<in>set ds. P c" "rest = [] \<or> \<not> P (hd rest)"
  shows "takeWhile P s = ds \<and> dropWhile P s = rest"
  using assms by (cases rest) (auto simp: takeWhile_tail dropWhile_append3)

subsection \<open>The matcher finds a match exactly when the pattern has one\<close>

lemma run_split_iff:
  "(\<exists>ds rest. s = ds @ rest \<and> lo \<le> length ds \<and> (\<forall>c\<in>set ds. P c) \<and> Q (length ds) rest)
     \<longleftrightarrow> (\<exists>k. lo \<le> k \<and> k \<le> length (takeWhile P s) \<and> Q k (drop k s))"
proof
  assume "\<exists>ds rest. s = ds @ rest \<and> lo \<le> length ds \<and> (\<forall>c\<in>set ds. P c) \<and> Q (length ds) rest"
  then obtain ds rest where h: "s = ds @ rest" "lo \<le> length ds" "\<forall>c\<in>set ds. P c" "Q (length ds) rest"
    by blast
  have "length ds \<le> length (takeWhile P s)"
    using h(1,3) by (rule prefix_run_le_takeWhile)
  moreover have "drop (length ds) s = rest" using h(1) by simp
  ultimately show "\<exists>k. lo \<le> k \<and> k \<le> length (takeWhile P s) \<and> Q k (drop k s)"
    using h(2,4) by blast
next
  assume "\<exists>k. lo \<le> k \<and> k \<le> length (takeWhile P s) \<and> Q k (drop k s)"
  then obtain k where k: "lo \<le> k" "k \<le> length (takeWhile P s)" "Q k (drop k s)" by blast
  have kl: "k \<le> length s" using k(2) length_takeWhile_le[of P s] by simp
  have "s = take k s @ drop k s" by simp
  moreover have "\<forall>c\<in>set (take k s). P c" using k(2) by (rule take_within_takeWhile)
  moreover have "length (take k s) = k" using kl by simp
  ultimately show "\<exists>ds rest. s = ds @ rest \<and> lo \<le> length ds \<and> (\<forall>c\<in>set ds. P c) \<and> Q (length ds) rest"
    using k(1,3) by metis
qed

theorem rx_match_accepts: "rx_match ic ps pos s \<noteq> None \<longleftrightarrow> accepts ic ps pos s"
proof (induction ic ps pos s rule: rx_match.induct)
  case (1 ic pos s)
  show ?case by simp
next
  case (2 ic p ps pos s)
  then show ?case by (cases s) auto
next
  case (3 ic ps pos s)
  then show ?case by auto
next
  case (4 ic ps pos s)
  have "rx_match ic (Digits # ps) pos s \<noteq> None \<longleftrightarrow>
      (\<exists>k. 1 \<le> k \<and> k \<le> length (takeWhile is_digit s) \<and> rx_match ic ps (pos + k) (drop k s) \<noteq> None)"
    by (auto simp: backtrack_None_iff)
  also have "\<dots> \<longleftrightarrow>
      (\<exists>k. 1 \<le> k \<and> k \<le> length (takeWhile is_digit s) \<and> accepts ic ps (pos + k) (drop k s))"
    using 4 by simp
  also have "\<dots> \<longleftrightarrow>
      (\<exists>ds rest. s = ds @ rest \<and> 1 \<le> length ds \<and> (\<forall>c\<in>set ds. is_digit c)
         \<and> accepts ic ps (pos + length ds) rest)"
    by (rule run_split_iff[symmetric])
  also have "\<dots> \<longleftrightarrow> accepts ic (Digits # ps) pos s"
    by (simp add: Suc_le_eq)
  finally show ?case .
next
  case (5 ic ps pos s)
  have "rx_match ic (Spaces # ps) pos s \<noteq> None \<longleftrightarrow>
      (\<exists>k. 0 \<le> k \<and> k \<le> length (takeWhile is_space s) \<and> rx_match ic ps (pos + k) (drop k s) \<noteq> None)"
    by (auto simp: backtrack_None_iff)
  also have "\<dots> \<longleftrightarrow>
      (\<exists>k. 0 \<le> k \<and> k \<le> length (takeWhile is_space s) \<and> accepts ic ps (pos + k) (drop k s))"
    using 5 by simp
  also have "\<dots> \<longleftrightarrow>
      (\<exists>ws rest. s = ws @ rest \<and> 0 \<le> length ws \<and> (\<forall>c\<in>set ws. is_space c)
         \<and> accepts ic ps (pos + length ws) rest)"
    by (rule run_split_iff[symmetric])
  also have "\<dots> \<longleftrightarrow> accepts ic (Spaces # ps) pos s"
    by simp
  finally show ?case .
qed

lemma rx_search_from_None_iff:
  "rx_search_from ic ps pos s = None \<longleftrightarrow>
     (\<forall>k\<le>length s. rx_match ic ps (pos + k) (drop k s) = None)"
proof (induction s arbitrary: pos)
  case Nil
  show ?case by simp
next
  case (Cons c cs)
  show ?case
  proof (cases "rx_match ic ps pos (c # cs)")
    case None
    have "(\<forall>k\<le>length (c # cs). rx_match ic ps (pos + k) (drop k (c # cs)) = None)
        \<longleftrightarrow> (\<forall>k\<le>length cs. rx_match ic ps (Suc pos + k) (drop k cs) = None)"
    proof
      assume a: "\<forall>k\<le>length (c # cs). rx_match ic ps (pos + k) (drop k (c # cs)) = None"
      show "\<forall>k\<le>length cs. rx_match ic ps (Suc pos + k) (drop k cs) = None"
      proof (intro allI impI)
        fix k assume "k \<le> length cs"
        with a[rule_format, of "Suc k"] show "rx_match ic ps (Suc pos + k) (drop k cs) = None"
          by simp
      qed
    next
      assume a: "\<forall>k\<le>length cs. rx_match ic ps (Suc pos + k) (drop k cs) = None"
      show "\<forall>k\<le>length (c # cs). rx_match ic ps (pos + k) (drop k (c # cs)) = None"
      proof (intro allI impI)
        fix k assume k: "k \<le> length (c # cs)"
        show "rx_match ic ps (pos + k) (drop k (c # cs)) = None"
        proof (cases k)
          case 0
          with None show ?thesis by simp
        next
          case (Suc j)
          with k a[rule_format, of j] show ?thesis by simp
        qed
      qed
    qed
    with None Cons.IH[of "Suc pos"] show ?thesis by simp
  next
    case (Some gs)
    then have "\<not> (\<forall>k\<le>length (c # cs). rx_match ic ps (pos + k) (drop k (c # cs)) = None)"
      by (auto intro!: exI[of _ 0])
    with Some show ?thesis by simp
  qed
qed

lemma rx_search_from_Some_iff:
  "rx_search_from ic ps pos s = Some gs \<longleftrightarrow>
     (\<exists>k\<le>length s. rx_match ic ps (pos + k) (drop k s) = Some gs
        \<and> (\<forall>j<k. rx_match ic ps (pos + j) (drop j s) = None))"
proof (induction s arbitrary: pos)
  case Nil
  show ?case by simp
next
  case (Cons c cs)
  show ?case
  proof (cases "rx_match ic ps pos (c # cs)")
    case (Some gs')
    have "(\<exists>k\<le>length (c # cs). rx_match ic ps (pos + k) (drop k (c # cs)) = Some gs
        \<and> (\<forall>j<k. rx_match ic ps (pos + j) (drop j (c # cs)) = None)) \<longleftrightarrow> gs' = gs"
    proof
      assume "\<exists>k\<le>length (c # cs). rx_match ic ps (pos + k) (drop k (c # cs)) = Some gs
        \<and> (\<forall>j<k. rx_match ic ps (pos + j) (drop j (c # cs)) = None)"
      then obtain k where k: "rx_match ic ps (pos + k) (drop k (c # cs)) = Some gs"
        "\<forall>j<k. rx_match ic ps (pos + j) (drop j (c # cs)) = None" by blast
      have "k = 0"
      proof (rule ccontr)
        assume "k \<noteq> 0"
        then have "0 < k" by simp
        with k(2) have "rx_match ic ps (pos + 0) (drop 0 (c # cs)) = None" by blast
        with Some show False by simp
      qed
      with k(1) Some show "gs' = gs" by simp
    next
      assume "gs' = gs"
      with Some show "\<exists>k\<le>length (c # cs). rx_match ic ps (pos + k) (drop k (c # cs)) = Some gs
        \<and> (\<forall>j<k. rx_match ic ps (pos + j) (drop j (c # cs)) = None)"
        by (intro exI[of _ 0]) simp
    qed
    with Some show ?thesis by simp
  next
    case None
    have "(\<exists>k\<le>length (c # cs). rx_match ic ps (pos + k) (drop k (c # cs)) = Some gs
        \<and> (\<forall>j<k. rx_match ic ps (pos + j) (drop j (c # cs)) = None))
      \<longleftrightarrow> (\<exists>k\<le>length cs. rx_match ic ps (Suc pos + k) (drop k cs) = Some gs
        \<and> (\<forall>j<k. rx_match ic ps (Suc pos + j) (drop j cs) = None))"
    proof
      assume "\<exists>k\<le>length (c # cs). rx_match ic ps (pos + k) (drop k (c # cs)) = Some gs
        \<and> (\<forall>j<k. rx_match ic ps (pos + j) (drop j (c # cs)) = None)"
      then obtain k where k: "k \<le> length (c # cs)"
        "rx_match ic ps (pos + k) (drop k (c # cs)) = Some gs"
        "\<forall>j<k. rx_match ic ps (pos + j) (drop j (c # cs)) = None" by blast
      from k(2) None obtain m where m: "k = Suc m" by (cases k) auto
      have "\<forall>j<m. rx_match ic ps (Suc pos + j) (drop j cs) = None"
      proof (intro allI impI)
        fix j assume "j < m"
        with k(3)[rule_format, of "Suc j"] m show "rx_match ic ps (Suc pos + j) (drop j cs) = None"
          by simp
      qed
      with k(1,2) m show "\<exists>k\<le>length cs. rx_match ic ps (Suc pos + k) (drop k cs) = Some gs
        \<and> (\<forall>j<k. rx_match ic ps (Suc pos + j) (drop j cs) = None)"
        by (intro exI[of _ m]) simp
    next
      assume "\<exists>k\<le>length cs. rx_match ic ps (Suc pos + k) (drop k cs) = Some gs
        \<and> (\<forall>j<k. rx_match ic ps (Suc pos + j) (drop j cs) = None)"
      then obtain m where m: "m \<le> length cs"
        "rx_match ic ps (Suc pos + m) (drop m cs) = Some gs"
        "\<forall>j<m. rx_match ic ps (Suc pos + j) (drop j cs) = None" by blast
      have "\<forall>j<Suc m. rx_match ic ps (pos + j) (drop j (c # cs)) = None"
      proof (intro allI impI)
        fix j assume j: "j < Suc m"
        show "rx_match ic ps (pos + j) (drop j (c # cs)) = None"
        proof (cases j)
          case 0
          with None show ?thesis by simp
        next
          case (Suc i)
          with j m(3)[rule_format, of i] show ?thesis by simp
        qed
      qed
      with m(1,2) show "\<exists>k\<le>length (c # cs). rx_match ic ps (pos + k) (drop k (c # cs)) = Some gs
        \<and> (\<forall>j<k. rx_match ic ps (pos + j) (drop j (c # cs)) = None)"
        by (intro exI[of _ "Suc m"]) simp
    qed
    with None Cons.IH[of "Suc pos"] show ?thesis by simp
  qed
qed

lemma re_search_contains: "re_search ps s ic \<noteq> None \<longleftrightarrow> contains ic ps s"
proof -
  have "re_search ps s ic \<noteq> None \<longleftrightarrow> (\<exists>k\<le>length s. accepts ic ps k (drop k s))"
    by (simp add: re_search_def rx_search_from_None_iff rx_match_accepts[symmetric])
  also have "\<dots> \<longleftrightarrow> contains ic ps s"
  proof
    assume "\<exists>k\<le>length s. accepts ic ps k (drop k s)"
    then obtain k where k: "k \<le> length s" "accepts ic ps k (drop k s)" by blast
    have "s = take k s @ drop k s" "length (take k s) = k" using k(1) by simp_all
    with k(2) show "contains ic ps s" unfolding contains_def by metis
  next
    assume "contains ic ps s"
    then obtain pre rest where h: "s = pre @ rest" "accepts ic ps (length pre) rest"
      unfolding contains_def by blast
    then have "length pre \<le> length s" "drop (length pre) s = rest" by simp_all
    with h(2) show "\<exists>k\<le>length s. accepts ic ps k (drop k s)" by blast
  qed
  finally show ?thesis .
qed

subsection \<open>Greedy groups: the digit runs are maximal\<close>

lemma is_space_not_digit: "is_space c \<Longrightarrow> \<not> is_digit c"
  by (auto simp: is_space_def is_digit_def)

lemma ascii_lower_digit: "is_digit (ascii_lower c) = is_digit c"
  by (auto simp: ascii_lower_def is_digit_def split: option.splits if_splits)

lemma lit_matches_digit: "lit_matches ic p c \<Longrightarrow> is_digit c = is_digit p"
  by (metis ascii_lower_digit lit_matches_def)

lemma lit_matches_S: "lit_matches True CHR ''S'' c \<longleftrightarrow> c = CHR ''S'' \<or> c = CHR ''s''"
  by (auto simp: lit_matches_def ascii_lower_def split: option.splits if_splits)

lemma lit_matches_E: "lit_matches True CHR ''E'' c \<longleftrightarrow> c = CHR ''E'' \<or> c = CHR ''e''"
  by (auto simp: lit_matches_def ascii_lower_def split: option.splits if_splits)

lemma lit_matches_P: "lit_matches True CHR ''P'' c \<longleftrightarrow> c = CHR ''P'' \<or> c = CHR ''p''"
  by (auto simp: lit_matches_def ascii_lower_def split: option.splits if_splits)

lemma lit_matches_p: "lit_matches True CHR ''p'' c \<longleftrightarrow> c = CHR ''P'' \<or> c = CHR ''p''"
  by (auto simp: lit_matches_def ascii_lower_def split: option.splits if_splits)

lemma lit_matches_x: "lit_matches True CHR ''x'' c \<longleftrightarrow> c = CHR ''X'' \<or> c = CHR ''x''"
  by (auto simp: lit_matches_def ascii_lower_def split: option.splits if_splits)

lemma lit_matches_exact: "lit_matches False p c \<longleftrightarrow> p = c"
  by (simp add: lit_matches_def)

lemma backtrack_top: "lo \<le> n \<Longrightarrow> f n = Some r \<Longrightarrow> backtrack lo n f = Some r"
  by (cases n) auto

lemma rx_match_Digits_end:
  "rx_match ic [Digits] pos s =
     (if takeWhile is_digit s = [] then None else Some [takeWhile is_digit s])"
proof (cases "takeWhile is_digit s = []")
  case True
  then show ?thesis by simp
next
  case False
  then have "1 \<le> length (takeWhile is_digit s)"
    by (simp add: Suc_le_eq)
  then have "backtrack 1 (length (takeWhile is_digit s))
      (\<lambda>n. map_option (Cons (take n s)) (rx_match ic [] (pos + n) (drop n s)))
      = Some [takeWhile is_digit s]"
    by (rule backtrack_top) simp
  with False show ?thesis by simp
qed

lemma rx_match_Digits_Lit:
  assumes "\<not> is_digit p"
  shows "rx_match ic (Digits # Lit p # ps) pos s =
     (if takeWhile is_digit s = [] then None
      else map_option (Cons (takeWhile is_digit s))
             (rx_match ic (Lit p # ps) (pos + length (takeWhile is_digit s))
                (dropWhile is_digit s)))"
proof -
  let ?n = "length (takeWhile is_digit s)"
  let ?f = "\<lambda>n. map_option (Cons (take n s)) (rx_match ic (Lit p # ps) (pos + n) (drop n s))"
  have low: "?f k = None" if "k < ?n" for k
  proof -
    from that obtain c cs where c: "drop k s = c # cs" "is_digit c"
      using drop_within_takeWhile_hd by blast
    then have "\<not> lit_matches ic p c"
      using assms lit_matches_digit by blast
    with c(1) show ?thesis by simp
  qed
  have "rx_match ic (Digits # Lit p # ps) pos s = backtrack 1 ?n ?f"
    by simp
  also have "\<dots> = (if 1 \<le> ?n then ?f ?n else None)"
    by (rule backtrack_top_only) (rule low)
  also have "\<dots> = (if takeWhile is_digit s = [] then None else ?f ?n)"
    by (simp add: Suc_le_eq)
  finally show ?thesis by simp
qed

lemma rx_match_Spaces_Digits:
  "rx_match ic (Spaces # Digits # ps) pos s =
     rx_match ic (Digits # ps) (pos + length (takeWhile is_space s)) (dropWhile is_space s)"
proof -
  let ?n = "length (takeWhile is_space s)"
  let ?f = "\<lambda>n. rx_match ic (Digits # ps) (pos + n) (drop n s)"
  have low: "?f k = None" if "k < ?n" for k
  proof -
    from that obtain c cs where c: "drop k s = c # cs" "is_space c"
      using drop_within_takeWhile_hd by blast
    then have "takeWhile is_digit (drop k s) = []"
      by (simp add: is_space_not_digit)
    then show ?thesis by simp
  qed
  have "rx_match ic (Spaces # Digits # ps) pos s = backtrack 0 ?n ?f"
    by simp
  also have "\<dots> = (if 0 \<le> ?n then ?f ?n else None)"
    by (rule backtrack_top_only) (rule low)
  finally show ?thesis by simp
qed

lemma accepts_needs_digit:
  "accepts ic ps pos s \<Longrightarrow> Digits \<in> set ps \<Longrightarrow> \<exists>c\<in>set s. is_digit c"
proof (induction ic ps pos s rule: accepts.induct)
  case (1 ic pos s)
  then show ?case by simp
next
  case (2 ic p ps pos s)
  then show ?case by auto
next
  case (3 ic ps pos s)
  then show ?case by auto
next
  case (4 ic ps pos s)
  from "4.prems"(1) obtain ds rest where "s = ds @ rest" "ds \<noteq> []" "\<forall>c\<in>set ds. is_digit c"
    by auto
  then show ?case by (cases ds) auto
next
  case (5 ic ps pos s)
  from "5.prems" obtain ws rest where h: "s = ws @ rest" "accepts ic ps (pos + length ws) rest"
    "Digits \<in> set ps" by auto
  from "5.IH"[OF h(2,3)] h(1) show ?case by auto
qed

lemma contains_needs_digit:
  "contains ic ps s \<Longrightarrow> Digits \<in> set ps \<Longrightarrow> \<exists>c\<in>set s. is_digit c"
  unfolding contains_def using accepts_needs_digit by fastforce

lemma re_search_no_digit:
  assumes "\<forall>c\<in>set s. \<not> is_digit c" "Digits \<in> set ps"
  shows "re_search ps s ic = None"
  using assms re_search_contains contains_needs_digit by blast

declare rx_match.simps(4,5) [simp del]

lemma munch_iff:
  "(takeWhile P s = ds \<and> dropWhile P s = rest) \<longleftrightarrow>
     (s = ds @ rest \<and> (\<forall>c\<in>set ds. P c) \<and> (rest = [] \<or> \<not> P (hd rest)))"
proof
  assume h: "takeWhile P s = ds \<and> dropWhile P s = rest"
  then have "s = ds @ rest" by (metis takeWhile_dropWhile_id)
  moreover have "\<forall>c\<in>set ds. P c" using h by (auto dest: set_takeWhileD)
  moreover have "rest = [] \<or> \<not> P (hd rest)" using h hd_dropWhile by blast
  ultimately show "s = ds @ rest \<and> (\<forall>c\<in>set ds. P c) \<and> (rest = [] \<or> \<not> P (hd rest))"
    by blast
next
  assume "s = ds @ rest \<and> (\<forall>c\<in>set ds. P c) \<and> (rest = [] \<or> \<not> P (hd rest))"
  then show "takeWhile P s = ds \<and> dropWhile P s = rest"
    using munch_unique by blast
qed

lemma rx_match_Lit_Digits_end:
  "rx_match ic [Lit p, Digits] pos t = Some gs \<longleftrightarrow>
     (\<exists>c ds post. t = c # ds @ post \<and> lit_matches ic p c \<and> ds \<noteq> []
        \<and> (\<forall>c\<in>set ds. is_digit c) \<and> (post = [] \<or> \<not> is_digit (hd post)) \<and> gs = [ds])"
  (is "?L \<longleftrightarrow> ?R")
proof (cases t)
  case Nil
  then show ?thesis by simp
next
  case (Cons c u)
  have L: "?L \<longleftrightarrow>
      lit_matches ic p c \<and> takeWhile is_digit u \<noteq> [] \<and> gs = [takeWhile is_digit u]"
    using Cons by (auto simp: rx_match_Digits_end)
  show ?thesis
  proof
    assume ?L
    with L have l: "lit_matches ic p c" "takeWhile is_digit u \<noteq> []"
      "gs = [takeWhile is_digit u]" by simp_all
    have d: "\<forall>c\<in>set (takeWhile is_digit u). is_digit c"
      by (auto dest: set_takeWhileD)
    have e: "dropWhile is_digit u = [] \<or> \<not> is_digit (hd (dropWhile is_digit u))"
      using hd_dropWhile by blast
    have "t = c # takeWhile is_digit u @ dropWhile is_digit u" using Cons by simp
    with l d e show ?R by (intro exI conjI)
  next
    assume ?R
    then obtain ds post where r: "u = ds @ post" "lit_matches ic p c" "ds \<noteq> []"
      "\<forall>c\<in>set ds. is_digit c" "post = [] \<or> \<not> is_digit (hd post)" "gs = [ds]"
      using Cons by auto
    from r(1,4,5) have "takeWhile is_digit u = ds \<and> dropWhile is_digit u = post"
      by (rule munch_unique)
    with L r(2,3,6) show ?L by simp
  qed
qed

lemma rx_match_groups_s_e:
  "rx_match True re_s_e pos t = Some gs \<longleftrightarrow>
     (\<exists>c1 d1 c2 d2 post. t = c1 # d1 @ c2 # d2 @ post
        \<and> (c1 = CHR ''S'' \<or> c1 = CHR ''s'') \<and> d1 \<noteq> [] \<and> (\<forall>c\<in>set d1. is_digit c)
        \<and> (c2 = CHR ''E'' \<or> c2 = CHR ''e'') \<and> d2 \<noteq> [] \<and> (\<forall>c\<in>set d2. is_digit c)
        \<and> (post = [] \<or> \<not> is_digit (hd post)) \<and> gs = [d1, d2])"
  (is "?L \<longleftrightarrow> ?R")
proof (cases t)
  case Nil
  then show ?thesis by (simp add: re_s_e_def)
next
  case (Cons c1 u)
  have nd: "\<not> is_digit CHR ''E''" by (simp add: is_digit_def)
  let ?d1 = "takeWhile is_digit u" and ?r = "dropWhile is_digit u"
  have e1: "rx_match True re_s_e pos t =
      (if lit_matches True CHR ''S'' c1
       then rx_match True [Digits, Lit CHR ''E'', Digits] (Suc pos) u else None)"
    using Cons by (simp add: re_s_e_def)
  have e2: "rx_match True [Digits, Lit CHR ''E'', Digits] (Suc pos) u =
      (if ?d1 = [] then None
       else map_option (Cons ?d1)
              (rx_match True [Lit CHR ''E'', Digits] (Suc pos + length ?d1) ?r))"
    by (rule rx_match_Digits_Lit[OF nd])
  have L: "?L \<longleftrightarrow> (c1 = CHR ''S'' \<or> c1 = CHR ''s'') \<and> ?d1 \<noteq> []
      \<and> (\<exists>g. rx_match True [Lit CHR ''E'', Digits] (Suc pos + length ?d1) ?r = Some g
              \<and> gs = ?d1 # g)"
    unfolding e1 e2 lit_matches_S
    by (cases "rx_match True [Lit CHR ''E'', Digits] (Suc pos + length ?d1) ?r") auto
  show ?thesis
  proof
    assume ?L
    with L obtain g where g: "c1 = CHR ''S'' \<or> c1 = CHR ''s''" "?d1 \<noteq> []"
      "rx_match True [Lit CHR ''E'', Digits] (Suc pos + length ?d1) ?r = Some g" "gs = ?d1 # g"
      by blast
    from g(3) obtain c2 d2 post where p: "?r = c2 # d2 @ post" "lit_matches True CHR ''E'' c2"
      "d2 \<noteq> []" "\<forall>c\<in>set d2. is_digit c" "post = [] \<or> \<not> is_digit (hd post)" "g = [d2]"
      unfolding rx_match_Lit_Digits_end by blast
    have d: "\<forall>c\<in>set ?d1. is_digit c" by (auto dest: set_takeWhileD)
    have u: "?d1 @ c2 # d2 @ post = u"
      using p(1) by (metis takeWhile_dropWhile_id)
    have c2: "c2 = CHR ''E'' \<or> c2 = CHR ''e''" using p(2) by (simp add: lit_matches_E)
    have t: "t = c1 # ?d1 @ c2 # d2 @ post" using Cons u by simp
    have gs: "gs = [?d1, d2]" using g(4) p(6) by simp
    from t g(1,2) d c2 p(3,4,5) gs show ?R by (intro exI conjI)
  next
    assume ?R
    then obtain d1 c2 d2 post where r: "u = d1 @ c2 # d2 @ post"
      "c1 = CHR ''S'' \<or> c1 = CHR ''s''" "d1 \<noteq> []" "\<forall>c\<in>set d1. is_digit c"
      "c2 = CHR ''E'' \<or> c2 = CHR ''e''" "d2 \<noteq> []" "\<forall>c\<in>set d2. is_digit c"
      "post = [] \<or> \<not> is_digit (hd post)" "gs = [d1, d2]"
      using Cons by auto
    have "\<not> is_digit c2" using r(5) by (auto simp: is_digit_def)
    then have m: "?d1 = d1 \<and> ?r = c2 # d2 @ post"
      using r(1,4) by (intro munch_unique) auto
    have "rx_match True [Lit CHR ''E'', Digits] (Suc pos + length ?d1) ?r = Some [d2]"
      unfolding rx_match_Lit_Digits_end using m r(5-8) by (auto simp: lit_matches_E)
    with L m r(2,3,9) show ?L by simp
  qed
qed

lemma rx_match_groups_ep:
  "rx_match True re_ep pos t = Some gs \<longleftrightarrow>
     (\<exists>c1 c2 ds post. t = c1 # c2 # ds @ post
        \<and> (c1 = CHR ''E'' \<or> c1 = CHR ''e'') \<and> (c2 = CHR ''P'' \<or> c2 = CHR ''p'')
        \<and> ds \<noteq> [] \<and> (\<forall>c\<in>set ds. is_digit c)
        \<and> (post = [] \<or> \<not> is_digit (hd post)) \<and> gs = [ds])"
  (is "?L \<longleftrightarrow> ?R")
proof (cases t)
  case Nil
  then show ?thesis by (simp add: re_ep_def)
next
  case (Cons c1 u)
  have L: "?L \<longleftrightarrow> (c1 = CHR ''E'' \<or> c1 = CHR ''e'')
      \<and> rx_match True [Lit CHR ''P'', Digits] (Suc pos) u = Some gs"
    using Cons by (simp add: re_ep_def lit_matches_E)
  show ?thesis
  proof
    assume ?L
    with L have c1: "c1 = CHR ''E'' \<or> c1 = CHR ''e''"
      and m: "rx_match True [Lit CHR ''P'', Digits] (Suc pos) u = Some gs" by simp_all
    from m obtain c2 ds post where p: "u = c2 # ds @ post" "lit_matches True CHR ''P'' c2"
      "ds \<noteq> []" "\<forall>c\<in>set ds. is_digit c" "post = [] \<or> \<not> is_digit (hd post)" "gs = [ds]"
      unfolding rx_match_Lit_Digits_end by blast
    have t: "t = c1 # c2 # ds @ post" using Cons p(1) by simp
    have c2: "c2 = CHR ''P'' \<or> c2 = CHR ''p''" using p(2) by (simp add: lit_matches_P)
    from t c1 c2 p(3-6) show ?R by (intro exI conjI)
  next
    assume ?R
    then obtain c2 ds post where r: "u = c2 # ds @ post"
      "c1 = CHR ''E'' \<or> c1 = CHR ''e''" "c2 = CHR ''P'' \<or> c2 = CHR ''p''"
      "ds \<noteq> []" "\<forall>c\<in>set ds. is_digit c" "post = [] \<or> \<not> is_digit (hd post)" "gs = [ds]"
      using Cons by auto
    have "lit_matches True CHR ''P'' c2" using r(3) by (simp add: lit_matches_P)
    with r(1,4-7) have "rx_match True [Lit CHR ''P'', Digits] (Suc pos) u = Some gs"
      unfolding rx_match_Lit_Digits_end by (intro exI conjI)
    with L r(2) show ?L by simp
  qed
qed

lemma rx_match_groups_dash:
  "rx_match False re_dash pos t = Some gs \<longleftrightarrow>
     pos = 0 \<and> (\<exists>ds rest. t = ds @ CHR ''-'' # rest \<and> ds \<noteq> [] \<and> (\<forall>c\<in>set ds. is_digit c)
        \<and> gs = [ds])"
  (is "?L \<longleftrightarrow> ?R")
proof -
  have nd: "\<not> is_digit CHR ''-''" by (simp add: is_digit_def)
  let ?d = "takeWhile is_digit t" and ?r = "dropWhile is_digit t"
  have e: "rx_match False [Digits, Lit CHR ''-''] pos t =
      (if ?d = [] then None
       else map_option (Cons ?d) (rx_match False [Lit CHR ''-''] (pos + length ?d) ?r))"
    by (rule rx_match_Digits_Lit[OF nd])
  have l: "rx_match False [Lit CHR ''-''] q r = (if r \<noteq> [] \<and> hd r = CHR ''-'' then Some [] else None)"
    for q r by (cases r) (auto simp: lit_matches_exact)
  have L: "?L \<longleftrightarrow> pos = 0 \<and> ?d \<noteq> [] \<and> ?r \<noteq> [] \<and> hd ?r = CHR ''-'' \<and> gs = [?d]"
    unfolding re_dash_def rx_match.simps(3) e l by auto
  show ?thesis
  proof
    assume ?L
    with L have h: "pos = 0" "?d \<noteq> []" "?r \<noteq> []" "hd ?r = CHR ''-''" "gs = [?d]" by simp_all
    from h(3,4) have "?r = CHR ''-'' # tl ?r" by (cases ?r) auto
    then have t: "t = ?d @ CHR ''-'' # tl ?r" by (metis takeWhile_dropWhile_id)
    have d: "\<forall>c\<in>set ?d. is_digit c" by (auto dest: set_takeWhileD)
    from t h(2) d h(5) have "\<exists>ds rest. t = ds @ CHR ''-'' # rest \<and> ds \<noteq> []
        \<and> (\<forall>c\<in>set ds. is_digit c) \<and> gs = [ds]" by (intro exI conjI)
    with h(1) show ?R by simp
  next
    assume ?R
    then obtain ds rest where r: "pos = 0" "t = ds @ CHR ''-'' # rest" "ds \<noteq> []"
      "\<forall>c\<in>set ds. is_digit c" "gs = [ds]" by blast
    have "?d = ds \<and> ?r = CHR ''-'' # rest"
      using r(2,4) nd by (intro munch_unique) auto
    with L r(1,3,5) show ?L by simp
  qed
qed

lemma rx_match_groups_number:
  "rx_match False re_number pos t =
     (if takeWhile is_digit t = [] then None else Some [takeWhile is_digit t])"
  by (simp add: re_number_def rx_match_Digits_end)

lemma rx_match_groups_ep_short:
  "rx_match True re_ep_short pos t = Some gs \<longleftrightarrow>
     (\<exists>c1 c2 ws ds post. t = c1 # c2 # ws @ ds @ post
        \<and> (c1 = CHR ''E'' \<or> c1 = CHR ''e'') \<and> (c2 = CHR ''P'' \<or> c2 = CHR ''p'')
        \<and> (\<forall>c\<in>set ws. is_space c) \<and> ds \<noteq> [] \<and> (\<forall>c\<in>set ds. is_digit c)
        \<and> (post = [] \<or> \<not> is_digit (hd post)) \<and> gs = [ds])"
  (is "?L \<longleftrightarrow> ?R")
proof -
  have sd: "rx_match True [Spaces, Digits] q r =
      (if takeWhile is_digit (dropWhile is_space r) = [] then None
       else Some [takeWhile is_digit (dropWhile is_space r)])" for q r
    by (simp add: rx_match_Spaces_Digits rx_match_Digits_end)
  show ?thesis
  proof (cases t)
    case Nil
    then show ?thesis by (simp add: re_ep_short_def)
  next
    case c1: (Cons c1 u)
    show ?thesis
    proof (cases u)
      case Nil
      then show ?thesis using c1 by (simp add: re_ep_short_def)
    next
      case (Cons c2 v)
      let ?ws = "takeWhile is_space v" and ?r = "dropWhile is_space v"
      let ?d = "takeWhile is_digit ?r" and ?p = "dropWhile is_digit ?r"
      have L: "?L \<longleftrightarrow> (c1 = CHR ''E'' \<or> c1 = CHR ''e'') \<and> (c2 = CHR ''P'' \<or> c2 = CHR ''p'')
          \<and> ?d \<noteq> [] \<and> gs = [?d]"
        using c1 Cons unfolding re_ep_short_def
        by (simp add: lit_matches_E lit_matches_p sd del: rx_match.simps(5)) blast
      show ?thesis
      proof
        assume ?L
        with L have h: "c1 = CHR ''E'' \<or> c1 = CHR ''e''" "c2 = CHR ''P'' \<or> c2 = CHR ''p''"
          "?d \<noteq> []" "gs = [?d]" by simp_all
        have "v = ?ws @ ?r" by simp
        also have "?r = ?d @ ?p" by simp
        finally have t: "t = c1 # c2 # ?ws @ ?d @ ?p" using c1 Cons by simp
        have w: "\<forall>c\<in>set ?ws. is_space c" by (auto dest: set_takeWhileD)
        have d: "\<forall>c\<in>set ?d. is_digit c" by (auto dest: set_takeWhileD)
        have p: "?p = [] \<or> \<not> is_digit (hd ?p)" using hd_dropWhile by blast
        from t h(1,2) w h(3) d p h(4) show ?R by (intro exI conjI)
      next
        assume ?R
        then obtain ws ds post where r: "v = ws @ ds @ post"
          "c1 = CHR ''E'' \<or> c1 = CHR ''e''" "c2 = CHR ''P'' \<or> c2 = CHR ''p''"
          "\<forall>c\<in>set ws. is_space c" "ds \<noteq> []" "\<forall>c\<in>set ds. is_digit c"
          "post = [] \<or> \<not> is_digit (hd post)" "gs = [ds]"
          using c1 Cons by auto
        have "is_digit (hd ds)" using r(5,6) by (cases ds) auto
        then have "\<not> is_space (hd (ds @ post))"
          using r(5) is_space_not_digit by (cases ds) auto
        then have "?ws = ws \<and> ?r = ds @ post"
          using r(1,4,5) by (intro munch_unique) auto
        moreover from this have "?d = ds \<and> ?p = post"
          using r(6,7) by (intro munch_unique) auto
        ultimately show ?L using L r(2,3,5,8) by simp
      qed
    qed
  qed
qed

subsection \<open>The leftmost match\<close>

lemma re_search_Some_iff:
  "re_search ps s ic = Some gs \<longleftrightarrow>
     (\<exists>k\<le>length s. rx_match ic ps k (drop k s) = Some gs
        \<and> (\<forall>j<k. rx_match ic ps j (drop j s) = None))"
  using rx_search_from_Some_iff[of ic ps 0 s gs] by (simp add: re_search_def)

lemma re_search_None_iff:
  "re_search ps s ic = None \<longleftrightarrow> (\<forall>k\<le>length s. rx_match ic ps k (drop k s) = None)"
  using rx_search_from_None_iff[of ic ps 0 s] by (simp add: re_search_def)

lemma re_search_leftmost:
  assumes "rx_match ic ps k0 (drop k0 s) \<noteq> None" "k0 \<le> length s"
  shows "\<exists>k gs. k \<le> k0 \<and> re_search ps s ic = Some gs
      \<and> rx_match ic ps k (drop k s) = Some gs
      \<and> (\<forall>j<k. rx_match ic ps j (drop j s) = None)"
proof -
  have "re_search ps s ic \<noteq> None"
  proof
    assume "re_search ps s ic = None"
    then have "rx_match ic ps k0 (drop k0 s) = None"
      unfolding re_search_None_iff using assms(2) by blast
    with assms(1) show False by simp
  qed
  then obtain gs where gs: "re_search ps s ic = Some gs" by blast
  then obtain k where k: "k \<le> length s" "rx_match ic ps k (drop k s) = Some gs"
    "\<forall>j<k. rx_match ic ps j (drop j s) = None"
    unfolding re_search_Some_iff by blast
  have "k \<le> k0"
  proof (rule ccontr)
    assume "\<not> k \<le> k0"
    then have "k0 < k" by simp
    with k(3) have "rx_match ic ps k0 (drop k0 s) = None" by blast
    with assms(1) show False by simp
  qed
  with gs k(2,3) show ?thesis by blast
qed

lemma s_e_occurrence_match:
  assumes "s_e_occurrence filename pre d1 d2"
  shows "\<exists>m2. rx_match True re_s_e pos (drop (length pre) filename) = Some [d1, m2]
      \<and> length d2 \<le> length m2"
proof -
  from assms obtain c1 c2 post where h: "filename = pre @ c1 # d1 @ c2 # d2 @ post"
    "c1 = CHR ''S'' \<or> c1 = CHR ''s''" "d1 \<noteq> []" "\<forall>c\<in>set d1. is_digit c"
    "c2 = CHR ''E'' \<or> c2 = CHR ''e''" "d2 \<noteq> []" "\<forall>c\<in>set d2. is_digit c"
    unfolding s_e_occurrence_def by blast
  let ?m2 = "d2 @ takeWhile is_digit post" and ?q = "dropWhile is_digit post"
  have t: "drop (length pre) filename = c1 # d1 @ c2 # ?m2 @ ?q" using h(1) by simp
  have m2: "?m2 \<noteq> []" "\<forall>c\<in>set ?m2. is_digit c"
    using h(6,7) by (auto dest: set_takeWhileD)
  have q: "?q = [] \<or> \<not> is_digit (hd ?q)" using hd_dropWhile by blast
  have g: "[d1, ?m2] = [d1, ?m2]" by simp
  have "rx_match True re_s_e pos (drop (length pre) filename) = Some [d1, ?m2]"
    unfolding rx_match_groups_s_e using t h(2,3,4,5) m2 q g by (intro exI conjI)
  then show ?thesis by (intro exI[of _ ?m2]) simp
qed

lemma s_e_match_occurrence:
  assumes "rx_match True re_s_e pos (drop k filename) = Some gs" "k \<le> length filename"
  shows "\<exists>m1 m2. gs = [m1, m2] \<and> s_e_occurrence filename (take k filename) m1 m2"
proof -
  from assms(1) obtain c1 d1 c2 d2 post where h: "drop k filename = c1 # d1 @ c2 # d2 @ post"
    "c1 = CHR ''S'' \<or> c1 = CHR ''s''" "d1 \<noteq> []" "\<forall>c\<in>set d1. is_digit c"
    "c2 = CHR ''E'' \<or> c2 = CHR ''e''" "d2 \<noteq> []" "\<forall>c\<in>set d2. is_digit c" "gs = [d1, d2]"
    unfolding rx_match_groups_s_e by blast
  have "filename = take k filename @ c1 # d1 @ c2 # d2 @ post"
    using h(1) by (metis append_take_drop_id)
  with h(2-7) have "s_e_occurrence filename (take k filename) d1 d2"
    unfolding s_e_occurrence_def by (intro exI conjI)
  with h(8) show ?thesis by blast
qed

lemma s_e_first_match:
  assumes "s_e_occurrence filename pre d1 d2"
  shows "\<exists>pre' m1 m2. s_e_occurrence filename pre' m1 m2
      \<and> (\<forall>p n1 n2. s_e_occurrence filename p n1 n2 \<longrightarrow>
            length pre' \<le> length p \<and> (length p = length pre' \<longrightarrow> n1 = m1 \<and> length n2 \<le> length m2))
      \<and> re_search re_s_e filename True = Some [m1, m2]"
proof -
  from assms have pl: "length pre \<le> length filename"
    unfolding s_e_occurrence_def by auto
  from s_e_occurrence_match[OF assms, of "length pre"]
  have "rx_match True re_s_e (length pre) (drop (length pre) filename) \<noteq> None" by auto
  from re_search_leftmost[OF this pl]
  obtain k gs where k: "k \<le> length pre" "re_search re_s_e filename True = Some gs"
    "rx_match True re_s_e k (drop k filename) = Some gs"
    "\<forall>j<k. rx_match True re_s_e j (drop j filename) = None" by blast
  have kl: "k \<le> length filename" using k(1) pl by simp
  from s_e_match_occurrence[OF k(3) kl]
  obtain m1 m2 where m: "gs = [m1, m2]" "s_e_occurrence filename (take k filename) m1 m2"
    by blast
  have first: "length (take k filename) \<le> length p
      \<and> (length p = length (take k filename) \<longrightarrow> n1 = m1 \<and> length n2 \<le> length m2)"
    if occ: "s_e_occurrence filename p n1 n2" for p n1 n2
  proof -
    from s_e_occurrence_match[OF occ, of "length p"]
    obtain n2' where n: "rx_match True re_s_e (length p) (drop (length p) filename) = Some [n1, n2']"
      "length n2 \<le> length n2'" by blast
    have le: "k \<le> length p"
    proof (rule ccontr)
      assume "\<not> k \<le> length p"
      then have "length p < k" by simp
      with k(4) n(1) show False by simp
    qed
    moreover have "n1 = m1 \<and> length n2 \<le> length m2" if "length p = k"
      using n k(3) m(1) that by simp
    ultimately show ?thesis using kl by simp
  qed
  from m(2) first k(2) m(1) show ?thesis by blast
qed

lemma not_contains_None: "\<not> contains ic ps s \<Longrightarrow> re_search ps s ic = None"
  using re_search_contains by blast

lemma ep_occurrence_match:
  assumes "ep_occurrence filename pre ds"
  shows "\<exists>m. rx_match True re_ep pos (drop (length pre) filename) = Some [m]
      \<and> length ds \<le> length m"
proof -
  from assms obtain c1 c2 post where h: "filename = pre @ c1 # c2 # ds @ post"
    "c1 = CHR ''E'' \<or> c1 = CHR ''e''" "c2 = CHR ''P'' \<or> c2 = CHR ''p''"
    "ds \<noteq> []" "\<forall>c\<in>set ds. is_digit c"
    unfolding ep_occurrence_def by blast
  let ?m = "ds @ takeWhile is_digit post" and ?q = "dropWhile is_digit post"
  have t: "drop (length pre) filename = c1 # c2 # ?m @ ?q" using h(1) by simp
  have m: "?m \<noteq> []" "\<forall>c\<in>set ?m. is_digit c"
    using h(4,5) by (auto dest: set_takeWhileD)
  have q: "?q = [] \<or> \<not> is_digit (hd ?q)" using hd_dropWhile by blast
  have g: "[?m] = [?m]" by simp
  have "rx_match True re_ep pos (drop (length pre) filename) = Some [?m]"
    unfolding rx_match_groups_ep using t h(2,3) m q g by (intro exI conjI)
  then show ?thesis by (intro exI[of _ ?m]) simp
qed

lemma ep_match_occurrence:
  assumes "rx_match True re_ep pos (drop k filename) = Some gs"
  shows "\<exists>m. gs = [m] \<and> ep_occurrence filename (take k filename) m"
proof -
  from assms obtain c1 c2 ds post where h: "drop k filename = c1 # c2 # ds @ post"
    "c1 = CHR ''E'' \<or> c1 = CHR ''e''" "c2 = CHR ''P'' \<or> c2 = CHR ''p''"
    "ds \<noteq> []" "\<forall>c\<in>set ds. is_digit c" "gs = [ds]"
    unfolding rx_match_groups_ep by blast
  have "filename = take k filename @ c1 # c2 # ds @ post"
    using h(1) by (metis append_take_drop_id)
  with h(2-5) have "ep_occurrence filename (take k filename) ds"
    unfolding ep_occurrence_def by (intro exI conjI)
  with h(6) show ?thesis by blast
qed

lemma ep_first_match:
  assumes "ep_occurrence filename pre ds"
  shows "\<exists>pre' m. ep_occurrence filename pre' m
      \<and> (\<forall>p n. ep_occurrence filename p n \<longrightarrow>
            length pre' \<le> length p \<and> (length p = length pre' \<longrightarrow> length n \<le> length m))
      \<and> re_search re_ep filename True = Some [m]"
proof -
  from assms have pl: "length pre \<le> length filename"
    unfolding ep_occurrence_def by auto
  from ep_occurrence_match[OF assms, of "length pre"]
  have "rx_match True re_ep (length pre) (drop (length pre) filename) \<noteq> None" by auto
  from re_search_leftmost[OF this pl]
  obtain k gs where k: "k \<le> length pre" "re_search re_ep filename True = Some gs"
    "rx_match True re_ep k (drop k filename) = Some gs"
    "\<forall>j<k. rx_match True re_ep j (drop j filename) = None" by blast
  have kl: "k \<le> length filename" using k(1) pl by simp
  from ep_match_occurrence[OF k(3)]
  obtain m where m: "gs = [m]" "ep_occurrence filename (take k filename) m"
    by blast
  have first: "length (take k filename) \<le> length p
      \<and> (length p = length (take k filename) \<longrightarrow> length n \<le> length m)"
    if occ: "ep_occurrence filename p n" for p n
  proof -
    from ep_occurrence_match[OF occ, of "length p"]
    obtain n' where n: "rx_match True re_ep (length p) (drop (length p) filename) = Some [n']"
      "length n \<le> length n'" by blast
    have le: "k \<le> length p"
    proof (rule ccontr)
      assume "\<not> k \<le> length p"
      then have "length p < k" by simp
      with k(4) n(1) show False by simp
    qed
    moreover have "length n \<le> length m" if "length p = k"
      using n k(3) m(1) that by simp
    ultimately show ?thesis using kl by simp
  qed
  from m(2) first k(2) m(1) show ?thesis by blast
qed

lemma re_search_dash:
  assumes "filename = ds @ CHR ''-'' # rest" "ds \<noteq> []" "\<forall>c\<in>set ds. is_digit c"
  shows "re_search re_dash filename False = Some [ds]"
proof -
  have g: "[ds] = [ds]" by simp
  have "\<exists>ds' rest'. filename = ds' @ CHR ''-'' # rest' \<and> ds' \<noteq> []
      \<and> (\<forall>c\<in>set ds'. is_digit c) \<and> [ds] = [ds']"
    using assms g by (intro exI conjI)
  then have "rx_match False re_dash 0 (drop 0 filename) = Some [ds]"
    unfolding rx_match_groups_dash by simp
  then show ?thesis
    unfolding re_search_Some_iff by (intro exI[of _ 0]) simp
qed

lemma re_search_number:
  assumes "filename = pre @ ds @ post" "\<forall>c\<in>set pre. \<not> is_digit c" "ds \<noteq> []"
    "\<forall>c\<in>set ds. is_digit c" "post = [] \<or> \<not> is_digit (hd post)"
  shows "re_search re_number filename False = Some [ds]"
proof -
  let ?k = "length pre"
  have "takeWhile is_digit (ds @ post) = ds \<and> dropWhile is_digit (ds @ post) = post"
    using assms(4,5) by (intro munch_unique) auto
  then have at: "rx_match False re_number ?k (drop ?k filename) = Some [ds]"
    using assms(1,3) by (simp add: rx_match_groups_number)
  have before: "rx_match False re_number j (drop j filename) = None" if "j < ?k" for j
  proof -
    have "drop j filename = drop j pre @ ds @ post" using that assms(1) by simp
    moreover have "drop j pre \<noteq> []" using that by simp
    moreover have "\<not> is_digit (hd (drop j pre))"
      using that assms(2) by (metis hd_drop_conv_nth nth_mem)
    ultimately have "takeWhile is_digit (drop j filename) = []"
      by (cases "drop j pre") auto
    then show ?thesis by (simp add: rx_match_groups_number)
  qed
  have "?k \<le> length filename" using assms(1) by simp
  with at before show ?thesis
    unfolding re_search_Some_iff by blast
qed

lemma dec_digits_ne: "dec_digits n \<noteq> []"
  by (subst dec_digits.simps) simp

subsection \<open>The first three patterns, written out\<close>

text \<open>
  What it means for a file name to contain a match of one of the first three patterns,
  in terms of its characters.
\<close>

lemma contains_s_e_iff:
  "contains True re_s_e filename \<longleftrightarrow> (\<exists>pre d1 d2. s_e_occurrence filename pre d1 d2)"
proof
  assume "contains True re_s_e filename"
  then obtain gs where "re_search re_s_e filename True = Some gs"
    using re_search_contains by fastforce
  then obtain k where k: "k \<le> length filename"
    "rx_match True re_s_e k (drop k filename) = Some gs"
    unfolding re_search_Some_iff by blast
  from s_e_match_occurrence[OF k(2,1)] show "\<exists>pre d1 d2. s_e_occurrence filename pre d1 d2"
    by blast
next
  assume "\<exists>pre d1 d2. s_e_occurrence filename pre d1 d2"
  then obtain pre d1 d2 where occ: "s_e_occurrence filename pre d1 d2" by blast
  from s_e_first_match[OF occ] have "re_search re_s_e filename True \<noteq> None" by auto
  then show "contains True re_s_e filename" using re_search_contains by blast
qed

lemma contains_ep_iff:
  "contains True re_ep filename \<longleftrightarrow> (\<exists>pre ds. ep_occurrence filename pre ds)"
proof
  assume "contains True re_ep filename"
  then obtain gs where "re_search re_ep filename True = Some gs"
    using re_search_contains by fastforce
  then obtain k where k: "k \<le> length filename"
    "rx_match True re_ep k (drop k filename) = Some gs"
    unfolding re_search_Some_iff by blast
  from ep_match_occurrence[OF k(2)] show "\<exists>pre ds. ep_occurrence filename pre ds"
    by blast
next
  assume "\<exists>pre ds. ep_occurrence filename pre ds"
  then obtain pre ds where occ: "ep_occurrence filename pre ds" by blast
  from ep_first_match[OF occ] have "re_search re_ep filename True \<noteq> None" by auto
  then show "contains True re_ep filename" using re_search_contains by blast
qed

lemma contains_s_x_e_iff:
  "contains True re_s_x_e filename \<longleftrightarrow>
     (\<exists>pre d1 x d2 post. filename = pre @ d1 @ x # d2 @ post
        \<and> d1 \<noteq> [] \<and> (\<forall>c\<in>set d1. is_digit c) \<and> (x = CHR ''X'' \<or> x = CHR ''x'')
        \<and> d2 \<noteq> [] \<and> (\<forall>c\<in>set d2. is_digit c))"
proof
  assume "contains True re_s_x_e filename"
  then obtain pre rest where f: "filename = pre @ rest"
    and a: "accepts True re_s_x_e (length pre) rest"
    unfolding contains_def by blast
  from a[unfolded re_s_x_e_def accepts.simps(4)]
  obtain d1 r1 where d1: "rest = d1 @ r1" "d1 \<noteq> []" "\<forall>c\<in>set d1. is_digit c"
    and a1: "accepts True [Lit CHR ''x'', Digits] (length pre + length d1) r1"
    by blast
  from a1[unfolded accepts.simps(2)]
  obtain x r2 where x: "r1 = x # r2" "lit_matches True CHR ''x'' x"
    and a2: "accepts True [Digits] (Suc (length pre + length d1)) r2"
    by blast
  from a2[unfolded accepts.simps(4)]
  obtain d2 post where d2: "r2 = d2 @ post" "d2 \<noteq> []" "\<forall>c\<in>set d2. is_digit c"
    by blast
  have "filename = pre @ d1 @ x # d2 @ post" using f d1(1) x(1) d2(1) by simp
  moreover have "x = CHR ''X'' \<or> x = CHR ''x''" using x(2) by (simp add: lit_matches_x)
  ultimately show "\<exists>pre d1 x d2 post. filename = pre @ d1 @ x # d2 @ post
        \<and> d1 \<noteq> [] \<and> (\<forall>c\<in>set d1. is_digit c) \<and> (x = CHR ''X'' \<or> x = CHR ''x'')
        \<and> d2 \<noteq> [] \<and> (\<forall>c\<in>set d2. is_digit c)"
    using d1(2,3) d2(2,3) by (intro exI conjI)
next
  assume "\<exists>pre d1 x d2 post. filename = pre @ d1 @ x # d2 @ post
        \<and> d1 \<noteq> [] \<and> (\<forall>c\<in>set d1. is_digit c) \<and> (x = CHR ''X'' \<or> x = CHR ''x'')
        \<and> d2 \<noteq> [] \<and> (\<forall>c\<in>set d2. is_digit c)"
  then obtain pre d1 x d2 post where h: "filename = pre @ d1 @ x # d2 @ post"
    "d1 \<noteq> []" "\<forall>c\<in>set d1. is_digit c" "x = CHR ''X'' \<or> x = CHR ''x''"
    "d2 \<noteq> []" "\<forall>c\<in>set d2. is_digit c" by blast
  have a2: "accepts True [Digits] p (d2 @ post)" for p
    using h(5,6) by (simp, intro exI[of _ d2] exI[of _ post]) simp
  have a1: "accepts True [Lit CHR ''x'', Digits] p (x # d2 @ post)" for p
    using h(4) a2 by (simp add: lit_matches_x)
  have "accepts True re_s_x_e (length pre) (d1 @ x # d2 @ post)"
    unfolding re_s_x_e_def using h(2,3) a1
    by (simp, intro exI[of _ d1] exI[of _ "x # d2 @ post"]) simp
  with h(1) show "contains True re_s_x_e filename"
    unfolding contains_def by blast
qed

subsection \<open>The format \<^verbatim>\<open>{n:02d}\<close>\<close>

text \<open>
  For a number that is not negative the format is its decimal representation, at least
  two digits wide: read back as a number it gives \<open>n\<close>, and from ten on it has no
  padding.
\<close>

lemma int_of_digits_snoc: "int_of_digits (ds @ [c]) = 10 * int_of_digits ds + digit_value c"
  by (simp add: int_of_digits_def)

lemma digit_char:
  assumes "d < 10"
  shows "is_digit (char_of (48 + d)) \<and> digit_value (char_of (48 + d)) = int d"
proof -
  have v: "digit_value (char_of (48 + d)) = int d"
    using assms by (simp add: digit_value_def)
  from assms have "d = 0 \<or> d = 1 \<or> d = 2 \<or> d = 3 \<or> d = 4 \<or> d = 5 \<or> d = 6 \<or> d = 7 \<or> d = 8 \<or> d = 9"
    by arith
  moreover have "is_digit (char_of (48 + (0::nat)))" "is_digit (char_of (48 + (1::nat)))"
    "is_digit (char_of (48 + (2::nat)))" "is_digit (char_of (48 + (3::nat)))"
    "is_digit (char_of (48 + (4::nat)))" "is_digit (char_of (48 + (5::nat)))"
    "is_digit (char_of (48 + (6::nat)))" "is_digit (char_of (48 + (7::nat)))"
    "is_digit (char_of (48 + (8::nat)))" "is_digit (char_of (48 + (9::nat)))"
    by code_simp+
  ultimately have "is_digit (char_of (48 + d))" by auto
  with v show ?thesis by simp
qed

lemma dec_digits_value:
  "int_of_digits (dec_digits n) = int n \<and> (\<forall>c\<in>set (dec_digits n). is_digit c)"
proof (induction n rule: dec_digits.induct)
  case (1 n)
  show ?case
  proof (cases "n < 10")
    case True
    then have "dec_digits n = [char_of (48 + n)]" by (subst dec_digits.simps) simp
    with digit_char[OF True] show ?thesis by (simp add: int_of_digits_def)
  next
    case False
    then have d: "dec_digits n = dec_digits (n div 10) @ [char_of (48 + n mod 10)]"
      by (subst dec_digits.simps) simp
    have m: "n mod 10 < 10" by simp
    have n: "10 * int (n div 10) + int (n mod 10) = int n"
      by (simp add: zdiv_int zmod_int)
    from "1.IH"[OF False] digit_char[OF m] n show ?thesis
      unfolding d by (simp add: int_of_digits_snoc)
  qed
qed

lemma int_of_digits_zeros: "int_of_digits (replicate k CHR ''0'' @ ds) = int_of_digits ds"
proof (induction k)
  case 0
  show ?case by simp
next
  case (Suc k)
  have z: "digit_value CHR ''0'' = 0" by (simp add: digit_value_def)
  have "foldl (\<lambda>a c. 10 * a + digit_value c) 0 (CHR ''0'' # xs)
      = foldl (\<lambda>a c. 10 * a + digit_value c) 0 xs" for xs
    by (simp add: z)
  then show ?case using Suc by (simp add: int_of_digits_def)
qed

lemma fmt_02d_value:
  assumes "0 \<le> n"
  shows "int_of_digits (fmt_02d n) = n \<and> 2 \<le> length (fmt_02d n)
     \<and> (\<forall>c\<in>set (fmt_02d n). is_digit c)
     \<and> (10 \<le> n \<longrightarrow> fmt_02d n = dec_digits (nat n))"
proof -
  have l: "10 \<le> m \<Longrightarrow> 2 \<le> length (dec_digits m)" for m
    by (subst dec_digits.simps) (simp add: dec_digits_ne Suc_le_eq)
  have z: "is_digit CHR ''0''" by (simp add: is_digit_def)
  show ?thesis
    using assms dec_digits_value[of "nat n"] l[of "nat n"] z
    by (auto simp: fmt_02d_def int_of_digits_zeros)
qed

section \<open>Properties of \<^verbatim>\<open>extract_episode_number\<close>\<close>

text \<open>
  Claim C2. Whenever the file name has an occurrence of \<open>S<digits>E<digits>\<close> (in any
  case, with digit strings of any length), the result is the tag
  \<open>S{season:02d}E{episode:02d}\<close> of the first occurrence: the one that starts leftmost,
  with its digit runs taken as long as they go. No later rule decides the result:
  \<^verbatim>\<open>S01E02 - Episode 3\<close> and \<^verbatim>\<open>Show.s1e2\<close> both give \<^verbatim>\<open>S01E02\<close>.
\<close>

theorem s_e_rule_first:
  assumes "s_e_occurrence filename pre d1 d2"
  shows "(\<exists>pre' m1 m2. s_e_occurrence filename pre' m1 m2
      \<and> (\<forall>p n1 n2. s_e_occurrence filename p n1 n2 \<longrightarrow>
            length pre' \<le> length p
            \<and> (length p = length pre' \<longrightarrow> n1 = m1 \<and> length n2 \<le> length m2))
      \<and> extract_episode_number filename =
            Some (''S'' @ fmt_02d (int_of_digits m1) @ ''E'' @ fmt_02d (int_of_digits m2)))
    \<and> extract_episode_number ''S01E02 - Episode 3'' = Some ''S01E02''
    \<and> extract_episode_number ''Show.s1e2'' = Some ''S01E02''"
proof (intro conjI)
  from s_e_first_match[OF assms]
  obtain pre' m1 m2 where m: "s_e_occurrence filename pre' m1 m2"
    "\<forall>p n1 n2. s_e_occurrence filename p n1 n2 \<longrightarrow>
        length pre' \<le> length p \<and> (length p = length pre' \<longrightarrow> n1 = m1 \<and> length n2 \<le> length m2)"
    "re_search re_s_e filename True = Some [m1, m2]" by blast
  from m(3) have "extract_episode_number filename =
      Some (''S'' @ fmt_02d (int_of_digits m1) @ ''E'' @ fmt_02d (int_of_digits m2))"
    by (simp add: extract_episode_number_def group_def)
  with m(1,2) show "\<exists>pre' m1 m2. s_e_occurrence filename pre' m1 m2
      \<and> (\<forall>p n1 n2. s_e_occurrence filename p n1 n2 \<longrightarrow>
            length pre' \<le> length p
            \<and> (length p = length pre' \<longrightarrow> n1 = m1 \<and> length n2 \<le> length m2))
      \<and> extract_episode_number filename =
            Some (''S'' @ fmt_02d (int_of_digits m1) @ ''E'' @ fmt_02d (int_of_digits m2))"
    by blast
next
  show "extract_episode_number ''S01E02 - Episode 3'' = Some ''S01E02''"
    by code_simp
next
  show "extract_episode_number ''Show.s1e2'' = Some ''S01E02''"
    by code_simp
qed


text \<open>The theorem at \<^verbatim>\<open>Pilot s12E007x\<close>, whose first occurrence is \<^verbatim>\<open>s12E007\<close>.\<close>

theorem s_e_rule_first_witness:
  "s_e_occurrence ''Pilot s12E007x'' ''Pilot '' ''12'' ''0''
   \<and> extract_episode_number ''Pilot s12E007x'' = Some ''S12E07''"
proof -
  have occ: "s_e_occurrence ''Pilot s12E007x'' ''Pilot '' ''12'' ''0''"
    unfolding s_e_occurrence_def
    by (intro exI[of _ "CHR ''s''"] exI[of _ "CHR ''E''"] exI[of _ "''07x''"])
      (simp add: is_digit_def)
  from s_e_rule_first[OF occ] obtain m1 m2 where
    "extract_episode_number ''Pilot s12E007x'' =
       Some (''S'' @ fmt_02d (int_of_digits m1) @ ''E'' @ fmt_02d (int_of_digits m2))"
    by blast
  moreover have "extract_episode_number ''Pilot s12E007x'' = Some ''S12E07''"
    by code_simp
  ultimately show ?thesis using occ by simp
qed


text \<open>
  Claim C6. The result is none exactly when the file name has no decimal digit. When it
  has one and none of the six earlier patterns occurs in it, the fallback returns
  \<open>E{n:02d}\<close> for the first number of the name: the digit run \<open>ds\<close> after the
  digit-free prefix \<open>pre\<close>, taken as long as it goes.
\<close>

theorem extract_none_iff_no_digit:
  "(extract_episode_number filename = None \<longleftrightarrow> (\<forall>c\<in>set filename. \<not> is_digit c))
   \<and> (filename = pre @ ds @ post \<and> (\<forall>c\<in>set pre. \<not> is_digit c) \<and> ds \<noteq> []
        \<and> (\<forall>c\<in>set ds. is_digit c) \<and> (post = [] \<or> \<not> is_digit (hd post))
        \<and> \<not> contains True re_s_e filename \<and> \<not> contains True re_s_x_e filename
        \<and> \<not> contains True re_ep filename \<and> \<not> contains False re_dash filename
        \<and> \<not> contains True re_episode filename \<and> \<not> contains True re_ep_short filename
      \<longrightarrow> extract_episode_number filename = Some (''E'' @ fmt_02d (int_of_digits ds)))"
proof (intro conjI impI)
  show "extract_episode_number filename = None \<longleftrightarrow> (\<forall>c\<in>set filename. \<not> is_digit c)"
  proof
    assume none: "extract_episode_number filename = None"
    then have "re_search re_number filename False = None"
      by (simp add: extract_episode_number_def split: option.splits)
    then have "\<not> contains False re_number filename"
      using re_search_contains by blast
    then have n: "\<not> accepts False re_number (length (takeWhile (\<lambda>c. \<not> is_digit c) filename))
        (dropWhile (\<lambda>c. \<not> is_digit c) filename)"
      unfolding contains_def by (metis takeWhile_dropWhile_id)
    show "\<forall>c\<in>set filename. \<not> is_digit c"
    proof (rule ccontr)
      assume "\<not> (\<forall>c\<in>set filename. \<not> is_digit c)"
      then have ne: "dropWhile (\<lambda>c. \<not> is_digit c) filename \<noteq> []"
        by (auto simp: dropWhile_eq_Nil_conv)
      then obtain d r where d: "dropWhile (\<lambda>c. \<not> is_digit c) filename = d # r"
        by (cases "dropWhile (\<lambda>c. \<not> is_digit c) filename") auto
      have "is_digit d" using hd_dropWhile[OF ne] d by simp
      then have "accepts False re_number (length (takeWhile (\<lambda>c. \<not> is_digit c) filename)) (d # r)"
        unfolding re_number_def by (simp, intro exI[of _ "[d]"]) simp
      with n d show False by simp
    qed
  next
    assume nd: "\<forall>c\<in>set filename. \<not> is_digit c"
    have "re_search re_s_e filename True = None" "re_search re_s_x_e filename True = None"
      "re_search re_ep filename True = None" "re_search re_dash filename False = None"
      "re_search re_episode filename True = None" "re_search re_ep_short filename True = None"
      "re_search re_number filename False = None"
      by (rule re_search_no_digit[OF nd],
          simp add: re_s_e_def re_s_x_e_def re_ep_def re_dash_def re_episode_def
            re_ep_short_def re_number_def)+
    then show "extract_episode_number filename = None"
      by (simp add: extract_episode_number_def)
  qed
next
  assume h: "filename = pre @ ds @ post \<and> (\<forall>c\<in>set pre. \<not> is_digit c) \<and> ds \<noteq> []
        \<and> (\<forall>c\<in>set ds. is_digit c) \<and> (post = [] \<or> \<not> is_digit (hd post))
        \<and> \<not> contains True re_s_e filename \<and> \<not> contains True re_s_x_e filename
        \<and> \<not> contains True re_ep filename \<and> \<not> contains False re_dash filename
        \<and> \<not> contains True re_episode filename \<and> \<not> contains True re_ep_short filename"
  then have f: "filename = pre @ ds @ post" and p: "\<forall>c\<in>set pre. \<not> is_digit c"
    and d: "ds \<noteq> []" "\<forall>c\<in>set ds. is_digit c" and q: "post = [] \<or> \<not> is_digit (hd post)"
    and n: "\<not> contains True re_s_e filename" "\<not> contains True re_s_x_e filename"
      "\<not> contains True re_ep filename" "\<not> contains False re_dash filename"
      "\<not> contains True re_episode filename" "\<not> contains True re_ep_short filename"
    by blast+
  have "re_search re_number filename False = Some [ds]"
    using f p d q by (rule re_search_number)
  moreover have "re_search re_s_e filename True = None" "re_search re_s_x_e filename True = None"
      "re_search re_ep filename True = None" "re_search re_dash filename False = None"
      "re_search re_episode filename True = None" "re_search re_ep_short filename True = None"
    using n by (simp_all add: not_contains_None)
  ultimately show "extract_episode_number filename = Some (''E'' @ fmt_02d (int_of_digits ds))"
    by (simp add: extract_episode_number_def group_def)
qed

text \<open>The theorem at \<^verbatim>\<open>Movie 1080p\<close> and at \<^verbatim>\<open>randomfile\<close>.\<close>

theorem extract_none_iff_no_digit_witness:
  "''Movie 1080p'' = ''Movie '' @ ''1080'' @ ''p''
   \<and> extract_episode_number ''Movie 1080p'' = Some (''E'' @ fmt_02d (int_of_digits ''1080''))
   \<and> ''E'' @ fmt_02d (int_of_digits ''1080'') = ''E1080''
   \<and> extract_episode_number ''randomfile'' = None"
proof -
  have f: "''Movie 1080p'' = ''Movie '' @ ''1080'' @ ''p''" by simp
  have p: "\<forall>c\<in>set ''Movie ''. \<not> is_digit c" by (simp add: is_digit_def)
  have d: "''1080'' \<noteq> []" "\<forall>c\<in>set ''1080''. is_digit c" by (simp_all add: is_digit_def)
  have q: "''p'' = [] \<or> \<not> is_digit (hd ''p'')" by (simp add: is_digit_def)
  have n: "\<not> contains True re_s_e ''Movie 1080p''" "\<not> contains True re_s_x_e ''Movie 1080p''"
    "\<not> contains True re_ep ''Movie 1080p''" "\<not> contains False re_dash ''Movie 1080p''"
    "\<not> contains True re_episode ''Movie 1080p''" "\<not> contains True re_ep_short ''Movie 1080p''"
    unfolding re_search_contains[symmetric] by code_simp+
  have r: "\<forall>c\<in>set ''randomfile''. \<not> is_digit c" by (simp add: is_digit_def)
  have v: "''E'' @ fmt_02d (int_of_digits ''1080'') = ''E1080''" by code_simp
  from extract_none_iff_no_digit[of "''Movie 1080p''" "''Movie ''" "''1080''" "''p''"]
    f p d q n
  have a: "extract_episode_number ''Movie 1080p'' = Some (''E'' @ fmt_02d (int_of_digits ''1080''))"
    by blast
  from extract_none_iff_no_digit[of "''randomfile''"] r
  have b: "extract_episode_number ''randomfile'' = None" by blast
  from f a v b show ?thesis by blast
qed

text \<open>
  Claim C7. A file name that starts with digits followed by \<^verbatim>\<open>-\<close>, and in which none
  of the first three patterns occurs, gets season one and the leading number as its
  episode: \<^verbatim>\<open>05-Pilot\<close> gives \<^verbatim>\<open>S01E05\<close>, not the \<^verbatim>\<open>E05\<close> of the fallback.
\<close>

theorem leading_dash_rule:
  assumes "filename = ds @ CHR ''-'' # rest" "ds \<noteq> []" "\<forall>c\<in>set ds. is_digit c"
    "\<not> contains True re_s_e filename" "\<not> contains True re_s_x_e filename"
    "\<not> contains True re_ep filename"
  shows "extract_episode_number filename = Some (''S01E'' @ fmt_02d (int_of_digits ds))
    \<and> extract_episode_number ''05-Pilot'' = Some ''S01E05''"
proof
  have "re_search re_dash filename False = Some [ds]"
    using assms(1-3) by (rule re_search_dash)
  moreover have "re_search re_s_e filename True = None" "re_search re_s_x_e filename True = None"
      "re_search re_ep filename True = None"
    using assms(4-6) by (simp_all add: not_contains_None)
  ultimately show "extract_episode_number filename = Some (''S01E'' @ fmt_02d (int_of_digits ds))"
    by (simp add: extract_episode_number_def group_def)
next
  show "extract_episode_number ''05-Pilot'' = Some ''S01E05''"
    by code_simp
qed


text \<open>The theorem at \<^verbatim>\<open>12-Finale\<close>.\<close>

theorem leading_dash_rule_witness:
  "''12-Finale'' = ''12'' @ CHR ''-'' # ''Finale''
   \<and> \<not> contains True re_s_e ''12-Finale'' \<and> \<not> contains True re_s_x_e ''12-Finale''
   \<and> \<not> contains True re_ep ''12-Finale''
   \<and> extract_episode_number ''12-Finale'' = Some (''S01E'' @ fmt_02d (int_of_digits ''12''))
   \<and> ''S01E'' @ fmt_02d (int_of_digits ''12'') = ''S01E12''"
proof -
  have f: "''12-Finale'' = ''12'' @ CHR ''-'' # ''Finale''" by simp
  have d: "''12'' \<noteq> []" "\<forall>c\<in>set ''12''. is_digit c" by (simp_all add: is_digit_def)
  have n1: "\<not> contains True re_s_e ''12-Finale''"
    unfolding re_search_contains[symmetric] by code_simp
  have n2: "\<not> contains True re_s_x_e ''12-Finale''"
    unfolding re_search_contains[symmetric] by code_simp
  have n3: "\<not> contains True re_ep ''12-Finale''"
    unfolding re_search_contains[symmetric] by code_simp
  have v: "''S01E'' @ fmt_02d (int_of_digits ''12'') = ''S01E12''" by code_simp
  from leading_dash_rule[OF f d n1 n2 n3] f n1 n2 n3 v show ?thesis by blast
qed

text \<open>
  The sixth pattern, \<^verbatim>\<open>Ep\s*(\d+)\<close>, is reached only after the third, \<^verbatim>\<open>EP(\d+)\<close>,
  has failed on the whole name, so its match has white space before the digits.
\<close>

lemma ep_short_needs_space:
  assumes "re_search re_ep filename True = None"
    "re_search re_ep_short filename True = Some gs"
  shows "\<exists>pre c1 c2 ws post. filename = pre @ c1 # c2 # ws @ group gs 1 @ post
      \<and> (c1 = CHR ''E'' \<or> c1 = CHR ''e'') \<and> (c2 = CHR ''P'' \<or> c2 = CHR ''p'')
      \<and> ws \<noteq> [] \<and> (\<forall>c\<in>set ws. is_space c)"
proof -
  from assms(2) obtain k where k: "k \<le> length filename"
    "rx_match True re_ep_short k (drop k filename) = Some gs"
    unfolding re_search_Some_iff by blast
  from k(2) obtain c1 c2 ws ds post where h: "drop k filename = c1 # c2 # ws @ ds @ post"
    "c1 = CHR ''E'' \<or> c1 = CHR ''e''" "c2 = CHR ''P'' \<or> c2 = CHR ''p''"
    "\<forall>c\<in>set ws. is_space c" "ds \<noteq> []" "\<forall>c\<in>set ds. is_digit c" "gs = [ds]"
    unfolding rx_match_groups_ep_short by blast
  have f: "filename = take k filename @ c1 # c2 # ws @ group gs 1 @ post"
    using h(1,7) by (metis append_take_drop_id group_def diff_self_eq_0 nth_Cons_0)
  have "ws \<noteq> []"
  proof
    assume "ws = []"
    with h(1) have "filename = take k filename @ c1 # c2 # ds @ post"
      by (metis append_Nil append_take_drop_id)
    with h(2,3,5,6) have "ep_occurrence filename (take k filename) ds"
      unfolding ep_occurrence_def by (intro exI conjI)
    from ep_occurrence_match[OF this, of k] k(1)
    have "rx_match True re_ep k (drop k filename) \<noteq> None" by auto
    moreover from assms(1) k(1) have "rx_match True re_ep k (drop k filename) = None"
      unfolding re_search_None_iff by blast
    ultimately show False by simp
  qed
  with f h(2,3,4) show ?thesis by (intro exI conjI)
qed


text \<open>
  Claim C10. When \<^verbatim>\<open>Ep\<close> (in any case) is directly followed by digits somewhere in the
  file name and neither of the first two patterns occurs, the result is
  \<open>S01E{n:02d}\<close> for the first such occurrence. Whenever the code returns through its
  sixth rule (the five searches before it return nothing and the sixth a match), at
  least one white-space character stands between \<^verbatim>\<open>Ep\<close> and the digits of that
  match, and the result is the season-less \<open>E{n:02d}\<close>.
\<close>

theorem ep_rule_before_ep_short:
  "(ep_occurrence filename pre ds \<and> \<not> contains True re_s_e filename
      \<and> \<not> contains True re_s_x_e filename
    \<longrightarrow> (\<exists>pre' m. ep_occurrence filename pre' m
          \<and> (\<forall>p n. ep_occurrence filename p n \<longrightarrow>
                length pre' \<le> length p \<and> (length p = length pre' \<longrightarrow> length n \<le> length m))
          \<and> extract_episode_number filename = Some (''S01E'' @ fmt_02d (int_of_digits m))))
   \<and> (re_search re_s_e filename True = None \<and> re_search re_s_x_e filename True = None
      \<and> re_search re_ep filename True = None \<and> re_search re_dash filename False = None
      \<and> re_search re_episode filename True = None
      \<and> re_search re_ep_short filename True = Some gs
    \<longrightarrow> (\<exists>pre c1 c2 ws post. filename = pre @ c1 # c2 # ws @ group gs 1 @ post
          \<and> (c1 = CHR ''E'' \<or> c1 = CHR ''e'') \<and> (c2 = CHR ''P'' \<or> c2 = CHR ''p'')
          \<and> ws \<noteq> [] \<and> (\<forall>c\<in>set ws. is_space c))
        \<and> extract_episode_number filename = Some (''E'' @ fmt_02d (int_of_digits (group gs 1))))"
proof (intro conjI impI)
  assume h: "ep_occurrence filename pre ds \<and> \<not> contains True re_s_e filename
      \<and> \<not> contains True re_s_x_e filename"
  then have occ: "ep_occurrence filename pre ds" by simp
  from h have n: "re_search re_s_e filename True = None" "re_search re_s_x_e filename True = None"
    by (simp_all add: not_contains_None)
  from ep_first_match[OF occ]
  obtain pre' m where m: "ep_occurrence filename pre' m"
    "\<forall>p n. ep_occurrence filename p n \<longrightarrow>
        length pre' \<le> length p \<and> (length p = length pre' \<longrightarrow> length n \<le> length m)"
    "re_search re_ep filename True = Some [m]" by blast
  from n m(3) have "extract_episode_number filename = Some (''S01E'' @ fmt_02d (int_of_digits m))"
    by (simp add: extract_episode_number_def group_def)
  with m(1,2) show "\<exists>pre' m. ep_occurrence filename pre' m
          \<and> (\<forall>p n. ep_occurrence filename p n \<longrightarrow>
                length pre' \<le> length p \<and> (length p = length pre' \<longrightarrow> length n \<le> length m))
          \<and> extract_episode_number filename = Some (''S01E'' @ fmt_02d (int_of_digits m))"
    by blast
next
  assume h: "re_search re_s_e filename True = None \<and> re_search re_s_x_e filename True = None
      \<and> re_search re_ep filename True = None \<and> re_search re_dash filename False = None
      \<and> re_search re_episode filename True = None
      \<and> re_search re_ep_short filename True = Some gs"
  then show "\<exists>pre c1 c2 ws post. filename = pre @ c1 # c2 # ws @ group gs 1 @ post
          \<and> (c1 = CHR ''E'' \<or> c1 = CHR ''e'') \<and> (c2 = CHR ''P'' \<or> c2 = CHR ''p'')
          \<and> ws \<noteq> [] \<and> (\<forall>c\<in>set ws. is_space c)"
    by (intro ep_short_needs_space) simp_all
next
  assume h: "re_search re_s_e filename True = None \<and> re_search re_s_x_e filename True = None
      \<and> re_search re_ep filename True = None \<and> re_search re_dash filename False = None
      \<and> re_search re_episode filename True = None
      \<and> re_search re_ep_short filename True = Some gs"
  then show "extract_episode_number filename = Some (''E'' @ fmt_02d (int_of_digits (group gs 1)))"
    by (simp add: extract_episode_number_def)
qed


text \<open>The theorem at \<^verbatim>\<open>Show Ep123\<close> and at \<^verbatim>\<open>Show Ep 123\<close>.\<close>

theorem ep_rule_before_ep_short_witness:
  "ep_occurrence ''Show Ep123'' ''Show '' ''123''
   \<and> \<not> contains True re_s_e ''Show Ep123'' \<and> \<not> contains True re_s_x_e ''Show Ep123''
   \<and> extract_episode_number ''Show Ep123'' = Some ''S01E123''
   \<and> re_search re_ep ''Show Ep 123'' True = None
   \<and> re_search re_ep_short ''Show Ep 123'' True = Some [''123'']
   \<and> extract_episode_number ''Show Ep 123'' = Some ''E123''
   \<and> (\<exists>pre c1 c2 ws post. ''Show Ep 123'' = pre @ c1 # c2 # ws @ ''123'' @ post \<and> ws \<noteq> [])"
proof -
  have occ: "ep_occurrence ''Show Ep123'' ''Show '' ''123''"
    unfolding ep_occurrence_def
    by (intro exI[of _ "CHR ''E''"] exI[of _ "CHR ''p''"] exI[of _ "[]"])
      (simp add: is_digit_def)
  have n1: "\<not> contains True re_s_e ''Show Ep123''"
    unfolding re_search_contains[symmetric] by code_simp
  have n2: "\<not> contains True re_s_x_e ''Show Ep123''"
    unfolding re_search_contains[symmetric] by code_simp
  have v1: "extract_episode_number ''Show Ep123'' = Some ''S01E123''" by code_simp
  from ep_rule_before_ep_short[of "''Show Ep123''" "''Show ''" "''123''"] occ n1 n2
  have "\<exists>m. extract_episode_number ''Show Ep123'' = Some (''S01E'' @ fmt_02d (int_of_digits m))"
    by blast
  have s: "re_search re_s_e ''Show Ep 123'' True = None"
    "re_search re_s_x_e ''Show Ep 123'' True = None"
    "re_search re_ep ''Show Ep 123'' True = None"
    "re_search re_dash ''Show Ep 123'' False = None"
    "re_search re_episode ''Show Ep 123'' True = None"
    "re_search re_ep_short ''Show Ep 123'' True = Some [''123'']"
    by code_simp+
  have g: "group [''123''] 1 = ''123''" by (simp add: group_def)
  from ep_rule_before_ep_short[of "''Show Ep 123''" _ _ "[''123'']"] s
  have "(\<exists>pre c1 c2 ws post. ''Show Ep 123'' = pre @ c1 # c2 # ws @ group [''123''] 1 @ post
          \<and> (c1 = CHR ''E'' \<or> c1 = CHR ''e'') \<and> (c2 = CHR ''P'' \<or> c2 = CHR ''p'')
          \<and> ws \<noteq> [] \<and> (\<forall>c\<in>set ws. is_space c))
    \<and> extract_episode_number ''Show Ep 123'' = Some (''E'' @ fmt_02d (int_of_digits (group [''123''] 1)))"
    by blast
  then have e: "\<exists>pre c1 c2 ws post. ''Show Ep 123'' = pre @ c1 # c2 # ws @ ''123'' @ post \<and> ws \<noteq> []"
    and v2': "extract_episode_number ''Show Ep 123'' = Some (''E'' @ fmt_02d (int_of_digits ''123''))"
    unfolding g by blast+
  have v2: "extract_episode_number ''Show Ep 123'' = Some ''E123''" by code_simp
  from occ n1 n2 v1 s(3,6) v2 e show ?thesis by blast
qed

section \<open>The directory, the tagger and the batch\<close>

lemma map_of_write_file [simp]:
  "map_of (write_file d name c) n = (if n = name then Some c else map_of d n)"
  by (simp add: write_file_def update_conv')

lemma map_of_remove_file [simp]:
  "map_of (remove_file d name) n = (if n = name then None else map_of d n)"
  by (simp add: remove_file_def delete_conv')

lemma files_say [simp]: "files (say m w) = files w"
  by (simp add: say_def)

lemma trace_say [simp]: "trace (say m w) = trace w @ [Print m]"
  by (simp add: say_def)

lemma py_suffix_cases:
  "py_suffix name = [] \<or>
     (\<exists>pre ext. name = pre @ CHR ''.'' # ext \<and> py_suffix name = CHR ''.'' # ext
        \<and> CHR ''.'' \<notin> set ext)"
proof (cases "py_suffix name = []")
  case True
  then show ?thesis by simp
next
  case False
  let ?P = "\<lambda>c. c \<noteq> CHR ''.''"
  let ?ext = "rev (takeWhile ?P (rev name))"
  from False have dot: "CHR ''.'' \<in> set name" and suf: "py_suffix name = CHR ''.'' # ?ext"
    by (auto simp: py_suffix_def Let_def split: if_splits)
  from dot have "dropWhile ?P (rev name) \<noteq> []" by (auto simp: dropWhile_eq_Nil_conv)
  then obtain x r where xr: "dropWhile ?P (rev name) = x # r"
    by (cases "dropWhile ?P (rev name)") auto
  then have "\<not> ?P x" using hd_dropWhile[of ?P "rev name"] by auto
  then have x: "x = CHR ''.''" by simp
  have "rev name = takeWhile ?P (rev name) @ x # r" using xr by (metis takeWhile_dropWhile_id)
  then have "rev (rev name) = rev (takeWhile ?P (rev name) @ x # r)" by simp
  then have n: "name = rev r @ CHR ''.'' # ?ext" using x by simp
  have "CHR ''.'' \<notin> set ?ext" by (auto dest: set_takeWhileD)
  with n suf show ?thesis by blast
qed

lemma stem_py_suffix: "stem name @ py_suffix name = name"
  using py_suffix_cases[of name] by (auto simp: stem_def)

lemma with_suffix_temp_neq: "with_suffix video ''.temp.mp4'' \<noteq> video"
proof
  assume a: "with_suffix video ''.temp.mp4'' = video"
  then have "stem video @ ''.temp.mp4'' = stem video @ py_suffix video"
    by (simp add: with_suffix_def stem_py_suffix)
  then have "py_suffix video = ''.temp.mp4''" by simp
  with py_suffix_cases[of video] show False by auto
qed

lemma last_with_suffix: "suffix \<noteq> [] \<Longrightarrow> last (with_suffix name suffix) = last suffix"
  by (simp add: with_suffix_def)

lemma path_exists_write_file [simp]:
  "path_exists (write_file d name c) n = (n = name \<or> path_exists d n)"
  by (simp add: path_exists_def)

lemma path_exists_remove_file [simp]:
  "path_exists (remove_file d name) n = (n \<noteq> name \<and> path_exists d n)"
  by (simp add: path_exists_def)

lemma subprocess_run_other:
  "n \<noteq> output \<Longrightarrow> map_of (files (snd (subprocess_run e cmd output w))) n = map_of (files w) n"
  by (simp add: subprocess_run_def Let_def split: tool_result.splits option.splits)

lemma subprocess_run_trace [simp]:
  "trace (snd (subprocess_run e cmd output w)) = trace w @ [Subprocess cmd]"
  by (simp add: subprocess_run_def Let_def split: tool_result.splits option.splits)

lemma map_filter_append [simp]:
  "List.map_filter f (xs @ ys) = List.map_filter f xs @ List.map_filter f ys"
  by (simp add: List.map_filter_def)

text \<open>The transcoder run of the tagger, and the move that follows it.\<close>

lemma subprocess_run_ok:
  assumes "ffmpeg e (files w) cmd = Tool_ok c"
  shows "subprocess_run e cmd output w
     = (True, w\<lparr>trace := trace w @ [Subprocess cmd], files := write_file (files w) output c\<rparr>)"
  using assms by (simp add: subprocess_run_def Let_def)

lemma subprocess_run_failed:
  assumes "ffmpeg e (files w) cmd = Tool_failed part"
  shows "subprocess_run e cmd output w
     = (False, w\<lparr>trace := trace w @ [Subprocess cmd],
                 files := (case part of None \<Rightarrow> files w | Some p \<Rightarrow> write_file (files w) output p)\<rparr>)"
  using assms by (cases part) (simp_all add: subprocess_run_def Let_def)

lemma shutil_move_trace [simp]: "trace (snd (shutil_move e src dst w)) = trace w"
  by (simp add: shutil_move_def Let_def split: option.splits copy_result.splits)

lemma shutil_move_other:
  "n \<noteq> src \<Longrightarrow> n \<noteq> dst \<Longrightarrow> map_of (files (snd (shutil_move e src dst w))) n = map_of (files w) n"
  by (simp add: shutil_move_def Let_def split: option.splits copy_result.splits)

lemma shutil_move_renamed:
  assumes "map_of (files w) src = Some c" "\<not> rename_fails e (files w) src dst"
  shows "shutil_move e src dst w
     = (Returned (), w\<lparr>files := write_file (remove_file (files w) src) dst c\<rparr>)"
  using assms by (simp add: shutil_move_def)

lemma shutil_move_copied:
  assumes "map_of (files w) src = Some c" "rename_fails e (files w) src dst"
    "copy2_result e (files w) src dst = Copy_ok" "src \<noteq> dst"
  shows "shutil_move e src dst w
     = (if unlink_fails e (write_file (files w) dst c) src
        then (Raised, w\<lparr>files := write_file (files w) dst c\<rparr>)
        else (Returned (), w\<lparr>files := write_file (remove_file (files w) src) dst c\<rparr>))"
  using assms
  by (simp add: shutil_move_def Let_def write_file_def remove_file_def delete_update)

lemma shutil_move_torn:
  assumes "map_of (files w) src = Some c" "rename_fails e (files w) src dst"
    "copy2_result e (files w) src dst = Copy_failed part"
  shows "shutil_move e src dst w
     = (Raised, w\<lparr>files := (case part of None \<Rightarrow> files w | Some p \<Rightarrow> write_file (files w) dst p)\<rparr>)"
  using assms by (cases part) (simp_all add: shutil_move_def)

text \<open>\<^verbatim>\<open>add_metadata_to_video\<close>, case by case.\<close>

lemma add_metadata_failed:
  assumes "ffmpeg e (files w) (remux_cmd video metadata) = Tool_failed part"
  shows "add_metadata_to_video e video metadata w =
     (let temp = with_suffix video ''.temp.mp4'';
          w1 = snd (subprocess_run e (remux_cmd video metadata) temp w);
          w2 = say (Error_adding_metadata video) w1
      in if path_exists (files w1) temp
         then (if unlink_fails e (files w1) temp then (Raised, w2)
               else (Returned False, w2\<lparr>files := remove_file (files w1) temp\<rparr>))
         else (Returned False, w2))"
  using assms by (simp add: add_metadata_to_video_def subprocess_run_failed Let_def)

lemma add_metadata_ok:
  assumes "ffmpeg e (files w) (remux_cmd video metadata) = Tool_ok c"
  shows "add_metadata_to_video e video metadata w =
     (let temp = with_suffix video ''.temp.mp4'';
          w1 = snd (subprocess_run e (remux_cmd video metadata) temp w)
      in case shutil_move e temp video w1 of
           (Returned u, w2) \<Rightarrow> (Returned True, w2)
         | (Raised, w2) \<Rightarrow> (Raised, w2))"
  using assms by (simp add: add_metadata_to_video_def subprocess_run_ok Let_def)

lemma add_metadata_shapes:
  assumes "add_metadata_to_video e video metadata w = (r, w')"
  shows "(r = Returned True \<and> trace w' = trace w @ [Subprocess (remux_cmd video metadata)])
     \<or> (r = Returned False \<and> trace w' = trace w @ [Subprocess (remux_cmd video metadata),
            Print (Error_adding_metadata video)])
     \<or> (r = Raised \<and> trace w' = trace w @ [Subprocess (remux_cmd video metadata)])
     \<or> (r = Raised \<and> trace w' = trace w @ [Subprocess (remux_cmd video metadata),
            Print (Error_adding_metadata video)])"
proof (cases "ffmpeg e (files w) (remux_cmd video metadata)")
  case (Tool_failed part)
  from assms show ?thesis
    unfolding add_metadata_failed[OF Tool_failed] Let_def
    by (auto split: if_splits)
next
  case (Tool_ok c)
  let ?w1 = "snd (subprocess_run e (remux_cmd video metadata) (with_suffix video ''.temp.mp4'') w)"
  obtain m w2 where m: "shutil_move e (with_suffix video ''.temp.mp4'') video ?w1 = (m, w2)"
    by (cases "shutil_move e (with_suffix video ''.temp.mp4'') video ?w1")
  have "trace w2 = trace ?w1"
    using shutil_move_trace[of e "with_suffix video ''.temp.mp4''" video ?w1] m by simp
  then have t: "trace w2 = trace w @ [Subprocess (remux_cmd video metadata)]" by simp
  from assms m have "(r = Returned True \<or> r = Raised) \<and> w' = w2"
    unfolding add_metadata_ok[OF Tool_ok] Let_def by (cases m) auto
  with t show ?thesis by auto
qed

lemma add_metadata_other:
  assumes "n \<noteq> with_suffix video ''.temp.mp4''" "n \<noteq> video"
  shows "map_of (files (snd (add_metadata_to_video e video metadata w))) n = map_of (files w) n"
proof (cases "ffmpeg e (files w) (remux_cmd video metadata)")
  case (Tool_failed part)
  show ?thesis
    unfolding add_metadata_failed[OF Tool_failed] Let_def
    using assms(1) by (simp add: subprocess_run_other)
next
  case (Tool_ok c)
  let ?t = "with_suffix video ''.temp.mp4''"
  let ?w1 = "snd (subprocess_run e (remux_cmd video metadata) ?t w)"
  have "snd (add_metadata_to_video e video metadata w) = snd (shutil_move e ?t video ?w1)"
    unfolding add_metadata_ok[OF Tool_ok] Let_def
    by (cases "shutil_move e ?t video ?w1"; cases "fst (shutil_move e ?t video ?w1)") auto
  then show ?thesis
    using shutil_move_other[OF assms, of e ?w1] subprocess_run_other[OF assms(1), of e _ w]
    by simp
qed

lemma create_thumbnail_shapes:
  assumes "create_psp_thumbnail_file e video t w = (ok, w')"
  shows "(ok \<and> trace w' = trace w) \<or> (\<not> ok \<and> trace w' = trace w @ [Print (Error_creating_thm video)])"
  using assms
  by (auto simp: create_psp_thumbnail_file_def Let_def
      split: copy_result.splits option.splits if_splits)

lemma tag_video_shapes:
  assumes "tag_video e th v md w = (r, w')"
  shows "\<exists>tr. trace w' = trace w @ Subprocess (remux_cmd v md) # tr \<and>
     ((r = Returned () \<and> tr = [Print (Error_adding_metadata v), Print (Metadata_failed v)])
      \<or> (r = Returned () \<and> tr = [Print (Metadata_added v)]
            \<and> (\<forall>t. th = Some t \<longrightarrow> \<not> path_exists (files w') t))
      \<or> (r = Returned () \<and> tr = [Print (Metadata_added v), Print (Thumbnail_created v)])
      \<or> (r = Returned () \<and> tr = [Print (Metadata_added v), Print (Error_creating_thm v),
                                    Print (Thumbnail_failed v)])
      \<or> (r = Raised \<and> (tr = [] \<or> tr = [Print (Error_adding_metadata v)])))"
proof -
  obtain b w1 where a: "add_metadata_to_video e v md w = (b, w1)"
    by (cases "add_metadata_to_video e v md w")
  note s = add_metadata_shapes[OF a]
  show ?thesis
  proof (cases b)
    case Raised
    with a assms have "r = Raised" "w' = w1" by (simp_all add: tag_video_def)
    with s Raised show ?thesis by auto
  next
    case (Returned ok)
    show ?thesis
    proof (cases ok)
      case False
      with a assms Returned have "r = Returned ()" "w' = say (Metadata_failed v) w1"
        by (simp_all add: tag_video_def)
      with s Returned False show ?thesis by auto
    next
      case True
      with s Returned have t1: "trace w1 = trace w @ [Subprocess (remux_cmd v md)]" by auto
      let ?w2 = "say (Metadata_added v) w1"
      show ?thesis
      proof (cases "\<exists>t. th = Some t \<and> path_exists (files ?w2) t")
        case no: False
        with a assms Returned True have "r = Returned ()" "w' = ?w2"
          by (auto simp: tag_video_def Let_def split: option.splits)
        with t1 no show ?thesis by auto
      next
        case yes: True
        then obtain t where t: "th = Some t" "path_exists (files ?w2) t" by blast
        obtain ok3 w3 where c: "create_psp_thumbnail_file e v t ?w2 = (ok3, w3)"
          by (cases "create_psp_thumbnail_file e v t ?w2")
        note cs = create_thumbnail_shapes[OF c]
        from a assms Returned True t c have r: "r = Returned ()"
          and w': "w' = (if ok3 then say (Thumbnail_created v) w3 else say (Thumbnail_failed v) w3)"
          by (auto simp: tag_video_def Let_def split: bool.splits)
        from cs r w' t1 show ?thesis by auto
      qed
    qed
  qed
qed


lemma map_filter_quiet: "(\<And>ev. ev \<in> set tr \<Longrightarrow> f ev = None) \<Longrightarrow> List.map_filter f tr = []"
  by (induction tr) auto


lemma thumbnail_not_temp: "''thumbnail.jpg'' \<noteq> with_suffix v ''.temp.mp4''"
proof
  assume "''thumbnail.jpg'' = with_suffix v ''.temp.mp4''"
  then have "last ''thumbnail.jpg'' = last (with_suffix v ''.temp.mp4'')" by simp
  then show False by (simp add: last_with_suffix)
qed


lemma last_is_mp4: "is_mp4 name \<Longrightarrow> last name = CHR ''4''"
proof -
  assume a: "is_mp4 name"
  then have "name = take (length name - 4) name @ ''.mp4''"
    unfolding is_mp4_def by (metis append_take_drop_id)
  then have "last name = last (take (length name - 4) name @ ''.mp4'')" by simp
  then show ?thesis by simp
qed


text \<open>The names that the turn of a video touches, and the names it cannot be.\<close>

lemma thm_not_temp: "with_suffix v ''.THM'' \<noteq> with_suffix u ''.temp.mp4''"
proof
  assume "with_suffix v ''.THM'' = with_suffix u ''.temp.mp4''"
  then have "last (with_suffix v ''.THM'') = last (with_suffix u ''.temp.mp4'')" by simp
  then show False by (simp add: last_with_suffix)
qed

lemma mp4_not_thm: "is_mp4 v \<Longrightarrow> v \<noteq> with_suffix u ''.THM''"
proof
  assume "is_mp4 v" "v = with_suffix u ''.THM''"
  then have "last (with_suffix u ''.THM'') = CHR ''4''" using last_is_mp4 by metis
  then show False by (simp add: last_with_suffix)
qed

lemma mp4_not_thumbnail: "is_mp4 v \<Longrightarrow> v \<noteq> ''thumbnail.jpg''"
  using last_is_mp4[of "''thumbnail.jpg''"] by auto

lemma thumbnail_not_thm: "''thumbnail.jpg'' \<noteq> with_suffix v ''.THM''"
proof
  assume "''thumbnail.jpg'' = with_suffix v ''.THM''"
  then have "last ''thumbnail.jpg'' = last (with_suffix v ''.THM'')" by simp
  then show False by (simp add: last_with_suffix)
qed

lemma with_suffix_eq_iff [simp]: "with_suffix u s = with_suffix v s \<longleftrightarrow> stem u = stem v"
  by (simp add: with_suffix_def)

text \<open>The directory that the tagger leaves depends on the directory only.\<close>

lemma shutil_move_files_cong:
  "files w = files w0 \<Longrightarrow>
     files (snd (shutil_move e src dst w)) = files (snd (shutil_move e src dst w0))
     \<and> fst (shutil_move e src dst w) = fst (shutil_move e src dst w0)"
  by (simp add: shutil_move_def Let_def split: option.splits copy_result.splits)

lemma subprocess_run_files_cong:
  "files w = files w0 \<Longrightarrow>
     files (snd (subprocess_run e cmd out w)) = files (snd (subprocess_run e cmd out w0))
     \<and> fst (subprocess_run e cmd out w) = fst (subprocess_run e cmd out w0)"
  by (simp add: subprocess_run_def Let_def split: tool_result.splits option.splits)

lemma add_metadata_files_cong:
  assumes "files w = files w0"
  shows "files (snd (add_metadata_to_video e v md w)) = files (snd (add_metadata_to_video e v md w0))"
proof (cases "ffmpeg e (files w) (remux_cmd v md)")
  case (Tool_failed part)
  then have f0: "ffmpeg e (files w0) (remux_cmd v md) = Tool_failed part" using assms by simp
  show ?thesis
    unfolding add_metadata_failed[OF Tool_failed] add_metadata_failed[OF f0] Let_def
    using subprocess_run_files_cong[OF assms, of e "remux_cmd v md" "with_suffix v ''.temp.mp4''"]
    by simp
next
  case (Tool_ok c)
  then have f0: "ffmpeg e (files w0) (remux_cmd v md) = Tool_ok c" using assms by simp
  let ?t = "with_suffix v ''.temp.mp4''"
  let ?w1 = "snd (subprocess_run e (remux_cmd v md) ?t w)"
  let ?w10 = "snd (subprocess_run e (remux_cmd v md) ?t w0)"
  have s: "files ?w1 = files ?w10"
    using subprocess_run_files_cong[OF assms, of e "remux_cmd v md" ?t] by simp
  have a: "snd (add_metadata_to_video e v md w) = snd (shutil_move e ?t v ?w1)"
    unfolding add_metadata_ok[OF Tool_ok] Let_def
    by (cases "shutil_move e ?t v ?w1"; cases "fst (shutil_move e ?t v ?w1)") auto
  have b: "snd (add_metadata_to_video e v md w0) = snd (shutil_move e ?t v ?w10)"
    unfolding add_metadata_ok[OF f0] Let_def
    by (cases "shutil_move e ?t v ?w10"; cases "fst (shutil_move e ?t v ?w10)") auto
  show ?thesis unfolding a b using shutil_move_files_cong[OF s] by simp
qed

text \<open>
  The tagger when the move and the removal of the temporary file cannot raise: it
  returns, with success exactly when the transcoder succeeds.
\<close>

lemma add_metadata_calm_failed:
  assumes "ffmpeg e (files w) (remux_cmd v md) = Tool_failed part"
    and "\<forall>d. \<not> unlink_fails e d (with_suffix v ''.temp.mp4'')"
  shows "\<exists>w'. add_metadata_to_video e v md w = (Returned False, w')
     \<and> trace w' = trace w @ [Subprocess (remux_cmd v md), Print (Error_adding_metadata v)]
     \<and> map_of (files w') v = map_of (files w) v"
  unfolding add_metadata_failed[OF assms(1)] Let_def
  using assms(2) with_suffix_temp_neq[of v]
  by (auto simp: subprocess_run_other)

lemma add_metadata_calm_ok:
  assumes "ffmpeg e (files w) (remux_cmd v md) = Tool_ok c"
    and "\<forall>d. rename_fails e d (with_suffix v ''.temp.mp4'') v
           \<longrightarrow> copy2_result e d (with_suffix v ''.temp.mp4'') v = Copy_ok"
    and "\<forall>d. \<not> unlink_fails e d (with_suffix v ''.temp.mp4'')"
  shows "\<exists>w'. add_metadata_to_video e v md w = (Returned True, w')
     \<and> trace w' = trace w @ [Subprocess (remux_cmd v md)]
     \<and> map_of (files w') v = Some c"
proof -
  let ?t = "with_suffix v ''.temp.mp4''"
  let ?w1 = "snd (subprocess_run e (remux_cmd v md) ?t w)"
  have w1: "?w1 = w\<lparr>trace := trace w @ [Subprocess (remux_cmd v md)],
      files := write_file (files w) ?t c\<rparr>"
    by (simp add: subprocess_run_ok[OF assms(1)])
  have t1: "map_of (files ?w1) ?t = Some c" by (simp add: w1)
  have neq: "?t \<noteq> v" by (rule with_suffix_temp_neq)
  have "shutil_move e ?t v ?w1
      = (Returned (), ?w1\<lparr>files := write_file (remove_file (files ?w1) ?t) v c\<rparr>)"
  proof (cases "rename_fails e (files ?w1) ?t v")
    case False
    then show ?thesis by (rule shutil_move_renamed[OF t1])
  next
    case True
    with assms(2) have "copy2_result e (files ?w1) ?t v = Copy_ok" by blast
    from shutil_move_copied[OF t1 True this neq] assms(3) show ?thesis by simp
  qed
  then show ?thesis
    unfolding add_metadata_ok[OF assms(1)] Let_def by (simp add: w1)
qed

lemma create_thumbnail_other:
  "n \<noteq> with_suffix v ''.THM'' \<Longrightarrow>
     map_of (files (snd (create_psp_thumbnail_file e v t w))) n = map_of (files w) n"
  by (simp add: create_psp_thumbnail_file_def Let_def split: option.splits copy_result.splits)

lemma tag_video_other:
  assumes "n \<noteq> v" "n \<noteq> with_suffix v ''.temp.mp4''" "n \<noteq> with_suffix v ''.THM''"
  shows "map_of (files (snd (tag_video e th v md w))) n = map_of (files w) n"
proof -
  obtain b w1 where a: "add_metadata_to_video e v md w = (b, w1)"
    by (cases "add_metadata_to_video e v md w")
  have k1: "map_of (files w1) n = map_of (files w) n"
    using add_metadata_other[OF assms(2,1), of e md w] a by simp
  show ?thesis
  proof (cases "\<exists>t. b = Returned True \<and> th = Some t \<and> path_exists (files w1) t")
    case False
    with a k1 show ?thesis
      by (auto simp: tag_video_def Let_def split: outcome.splits bool.splits option.splits if_splits)
  next
    case True
    then obtain t where t: "b = Returned True" "th = Some t" "path_exists (files w1) t" by blast
    let ?w2 = "say (Metadata_added v) w1"
    obtain ok3 w3 where c: "create_psp_thumbnail_file e v t ?w2 = (ok3, w3)"
      by (cases "create_psp_thumbnail_file e v t ?w2")
    have "map_of (files w3) n = map_of (files w) n"
      using create_thumbnail_other[OF assms(3), of e t ?w2] c k1 by simp
    with a t c show ?thesis
      by (auto simp: tag_video_def Let_def split: if_splits bool.splits)
  qed
qed

text \<open>One turn of the loop when the tagger cannot raise.\<close>

lemma tag_video_calm:
  assumes move: "\<forall>d. rename_fails e d (with_suffix v ''.temp.mp4'') v
           \<longrightarrow> copy2_result e d (with_suffix v ''.temp.mp4'') v = Copy_ok"
    and unlink: "\<forall>d. \<not> unlink_fails e d (with_suffix v ''.temp.mp4'')"
    and mp4: "is_mp4 v"
    and th: "th = None \<or> th = Some ''thumbnail.jpg''"
    and inv: "th \<noteq> None \<longrightarrow> path_exists (files w0) ''thumbnail.jpg''"
    and w: "files w = files w0" "trace w = trace w0 @ pre"
    and pre: "List.map_filter started pre = [v]" "List.map_filter tagging_report pre = []"
      "Print Cleaning_up \<notin> set pre"
  shows "\<exists>w' tr report. tag_video e th v md w = (Returned (), w') \<and> trace w' = trace w0 @ tr
      \<and> List.map_filter started tr = [v] \<and> Print Cleaning_up \<notin> set tr
      \<and> List.map_filter tagging_report tr = [report]
      \<and> video_outcome e th md v w0 w' report tr"
proof (cases "ffmpeg e (files w) (remux_cmd v md)")
  case (Tool_failed part)
  from add_metadata_calm_failed[OF Tool_failed unlink] obtain w1 where
    a: "add_metadata_to_video e v md w = (Returned False, w1)"
    and t1: "trace w1 = trace w @ [Subprocess (remux_cmd v md), Print (Error_adding_metadata v)]"
    and v1: "map_of (files w1) v = map_of (files w) v" by blast
  let ?w' = "say (Metadata_failed v) w1"
  let ?tr = "pre @ [Subprocess (remux_cmd v md), Print (Error_adding_metadata v),
      Print (Metadata_failed v)]"
  have r: "tag_video e th v md w = (Returned (), ?w')" by (simp add: tag_video_def a)
  have tr: "trace ?w' = trace w0 @ ?tr" using t1 w(2) by simp
  have s: "List.map_filter started ?tr = [v]" "Print Cleaning_up \<notin> set ?tr"
    "List.map_filter tagging_report ?tr = [(v, False)]"
    using pre by (simp_all add: List.map_filter_simps)
  have o: "video_outcome e th md v w0 ?w' (v, False) ?tr"
    using Tool_failed v1 w(1) by (simp add: video_outcome_def)
  from r tr s o show ?thesis by blast
next
  case (Tool_ok c)
  from add_metadata_calm_ok[OF Tool_ok move unlink] obtain w1 where
    a: "add_metadata_to_video e v md w = (Returned True, w1)"
    and t1: "trace w1 = trace w @ [Subprocess (remux_cmd v md)]"
    and v1: "map_of (files w1) v = Some c" by blast
  have f0: "ffmpeg e (files w0) (remux_cmd v md) = Tool_ok c" using Tool_ok w(1) by simp
  have d1: "files w1 = files (snd (add_metadata_to_video e v md w0))"
    using add_metadata_files_cong[OF w(1), of e v md] a by simp
  let ?w2 = "say (Metadata_added v) w1"
  show ?thesis
  proof (cases th)
    case None
    let ?tr = "pre @ [Subprocess (remux_cmd v md), Print (Metadata_added v)]"
    have r: "tag_video e th v md w = (Returned (), ?w2)" by (simp add: tag_video_def a None)
    have tr: "trace ?w2 = trace w0 @ ?tr" using t1 w(2) by simp
    have s: "List.map_filter started ?tr = [v]" "Print Cleaning_up \<notin> set ?tr"
      "List.map_filter tagging_report ?tr = [(v, True)]"
      using pre by (simp_all add: List.map_filter_simps)
    have o: "video_outcome e th md v w0 ?w2 (v, True) ?tr"
      using f0 v1 None by (simp add: video_outcome_def)
    from r tr s o show ?thesis by blast
  next
    case (Some t)
    with th have t: "t = ''thumbnail.jpg''" by simp
    have tn: "t \<noteq> with_suffix v ''.temp.mp4''" "t \<noteq> v" "with_suffix v ''.THM'' \<noteq> v"
      using thumbnail_not_temp[of v] mp4_not_thumbnail[OF mp4] mp4_not_thm[OF mp4, of v]
      unfolding t by auto
    have tk: "map_of (files w1) t = map_of (files w0) t"
      using add_metadata_other[OF tn(1,2), of e md w] a w(1) by simp
    from inv Some t have ex0: "path_exists (files w0) t" by simp
    then obtain tc where tc: "map_of (files w0) t = Some tc"
      by (auto simp: path_exists_def)
    have ex: "path_exists (files ?w2) t" using tk tc by (simp add: path_exists_def)
    have tc2: "map_of (files ?w2) t = Some tc" using tk tc by simp
    have tv: "tag_video e th v md w =
        (case create_psp_thumbnail_file e v t ?w2 of
           (True, w3) \<Rightarrow> (Returned (), say (Thumbnail_created v) w3)
         | (False, w3) \<Rightarrow> (Returned (), say (Thumbnail_failed v) w3))"
      using ex by (simp add: tag_video_def a Some Let_def)
    show ?thesis
    proof (cases "copy2_result e (files ?w2) t (with_suffix v ''.THM'')")
      case Copy_ok
      let ?w' = "say (Thumbnail_created v)
          (?w2\<lparr>files := write_file (files ?w2) (with_suffix v ''.THM'') tc\<rparr>)"
      let ?tr = "pre @ [Subprocess (remux_cmd v md), Print (Metadata_added v),
          Print (Thumbnail_created v)]"
      have r: "tag_video e th v md w = (Returned (), ?w')"
        unfolding tv using tc2 Copy_ok by (simp add: create_psp_thumbnail_file_def Let_def)
      have tr: "trace ?w' = trace w0 @ ?tr" using t1 w(2) by simp
      have s: "List.map_filter started ?tr = [v]" "Print Cleaning_up \<notin> set ?tr"
        "List.map_filter tagging_report ?tr = [(v, True)]"
        using pre by (simp_all add: List.map_filter_simps)
      have c0: "copy2_result e (files (snd (add_metadata_to_video e v md w0))) t
          (with_suffix v ''.THM'') = Copy_ok"
        using Copy_ok d1 by simp
      have o: "video_outcome e th md v w0 ?w' (v, True) ?tr"
        using f0 v1 Some ex0 c0 tn(3) tc by (simp add: video_outcome_def)
      from r tr s o show ?thesis by blast
    next
      case (Copy_failed part)
      let ?w3 = "say (Error_creating_thm v)
          (?w2\<lparr>files := (case part of None \<Rightarrow> files ?w2
             | Some p \<Rightarrow> write_file (files ?w2) (with_suffix v ''.THM'') p)\<rparr>)"
      let ?w' = "say (Thumbnail_failed v) ?w3"
      let ?tr = "pre @ [Subprocess (remux_cmd v md), Print (Metadata_added v),
          Print (Error_creating_thm v), Print (Thumbnail_failed v)]"
      have "create_psp_thumbnail_file e v t ?w2 = (False, ?w3)"
        using tc2 Copy_failed
        by (cases part) (simp_all add: create_psp_thumbnail_file_def Let_def say_def)
      then have r: "tag_video e th v md w = (Returned (), ?w')"
        unfolding tv by simp
      have tr: "trace ?w' = trace w0 @ ?tr" using t1 w(2) by simp
      have s: "List.map_filter started ?tr = [v]" "Print Cleaning_up \<notin> set ?tr"
        "List.map_filter tagging_report ?tr = [(v, True)]"
        using pre by (simp_all add: List.map_filter_simps)
      have c0: "copy2_result e (files (snd (add_metadata_to_video e v md w0))) t
          (with_suffix v ''.THM'') = Copy_failed part"
        using Copy_failed d1 by simp
      have vf: "map_of (files ?w') v = Some c"
        using v1 tn(3) by (cases part) simp_all
      have o: "video_outcome e th md v w0 ?w' (v, True) ?tr"
        using f0 vf Some ex0 c0 by (simp add: video_outcome_def)
      from r tr s o show ?thesis by blast
    qed
  qed
qed

text \<open>
  The loop. Run over a listing whose turns all return, it returns, and the world in
  which the turn of the \<open>i\<close>-th video begins is what the loop over the \<open>i\<close> videos
  before it leaves.
\<close>

lemma for_each_video_append:
  "for_each_video body (xs @ ys) w =
     (case for_each_video body xs w of
        (Returned u, w1) \<Rightarrow> for_each_video body ys w1
      | (Raised, w1) \<Rightarrow> (Raised, w1))"
proof (induction xs arbitrary: w)
  case Nil
  show ?case by simp
next
  case (Cons x xs)
  obtain r w1 where b: "body x w = (r, w1)" by (cases "body x w")
  show ?case using b Cons.IH[of w1] by (cases r) simp_all
qed

lemma for_each_video_rest:
  assumes "for_each_video body vs w = (Returned (), w')"
  shows "for_each_video body (take k vs) w = (Returned (), snd (for_each_video body (take k vs) w))
     \<and> for_each_video body (drop k vs) (snd (for_each_video body (take k vs) w)) = (Returned (), w')"
proof -
  obtain r w1 where p: "for_each_video body (take k vs) w = (r, w1)"
    by (cases "for_each_video body (take k vs) w")
  have "for_each_video body (take k vs @ drop k vs) w = (Returned (), w')"
    using assms by simp
  then have "(case (r, w1) of (Returned u, w1) \<Rightarrow> for_each_video body (drop k vs) w1
      | (Raised, w1) \<Rightarrow> (Raised, w1)) = (Returned (), w')"
    unfolding for_each_video_append p .
  then have "r = Returned () \<and> for_each_video body (drop k vs) w1 = (Returned (), w')"
    by (cases r) simp_all
  with p show ?thesis by simp
qed

lemma for_each_video_indexed:
  assumes step: "\<And>v w. v \<in> set vs \<Longrightarrow> I w \<Longrightarrow>
      \<exists>w' tr. body v w = (Returned (), w') \<and> trace w' = trace w @ tr \<and> I w' \<and> Q v w w' tr"
    and "I w"
  shows "\<exists>w' trs. for_each_video body vs w = (Returned (), w')
      \<and> trace w' = trace w @ concat trs \<and> length trs = length vs
      \<and> (\<forall>i<length vs.
            I (snd (for_each_video body (take i vs) w))
            \<and> Q (vs ! i) (snd (for_each_video body (take i vs) w))
                 (snd (for_each_video body (take (Suc i) vs) w)) (trs ! i))"
  using assms
proof (induction vs arbitrary: w)
  case Nil
  then show ?case by simp
next
  case (Cons v vs)
  from Cons.prems(1)[of v w] Cons.prems(2)
  obtain w1 tr where s: "body v w = (Returned (), w1)" "trace w1 = trace w @ tr" "I w1"
    "Q v w w1 tr"
    by auto
  have "\<exists>w' trs. for_each_video body vs w1 = (Returned (), w')
      \<and> trace w' = trace w1 @ concat trs \<and> length trs = length vs
      \<and> (\<forall>i<length vs.
            I (snd (for_each_video body (take i vs) w1))
            \<and> Q (vs ! i) (snd (for_each_video body (take i vs) w1))
                 (snd (for_each_video body (take (Suc i) vs) w1)) (trs ! i))"
    using Cons.prems(1) s(3) by (intro Cons.IH) auto
  then obtain w' trs where r: "for_each_video body vs w1 = (Returned (), w')"
    "trace w' = trace w1 @ concat trs" "length trs = length vs"
    "\<forall>i<length vs.
            I (snd (for_each_video body (take i vs) w1))
            \<and> Q (vs ! i) (snd (for_each_video body (take i vs) w1))
                 (snd (for_each_video body (take (Suc i) vs) w1)) (trs ! i)" by blast
  have a: "for_each_video body (v # vs) w = (Returned (), w')" using s(1) r(1) by simp
  have b: "trace w' = trace w @ concat (tr # trs)" using s(2) r(2) by simp
  have c: "length (tr # trs) = length (v # vs)" using r(3) by simp
  have d: "I (snd (for_each_video body (take i (v # vs)) w))
            \<and> Q ((v # vs) ! i) (snd (for_each_video body (take i (v # vs)) w))
                 (snd (for_each_video body (take (Suc i) (v # vs)) w)) ((tr # trs) ! i)"
    if "i < length (v # vs)" for i
  proof (cases i)
    case 0
    with s Cons.prems(2) show ?thesis by simp
  next
    case (Suc j)
    with that have "j < length vs" by simp
    with r(4) Suc s(1) show ?thesis by simp
  qed
  from a b c d show ?case by blast
qed

lemma for_each_video_other:
  assumes "\<And>v w. v \<in> set vs \<Longrightarrow> map_of (files (snd (body v w))) n = map_of (files w) n"
  shows "map_of (files (snd (for_each_video body vs w))) n = map_of (files w) n"
  using assms
proof (induction vs arbitrary: w)
  case Nil
  show ?case by simp
next
  case (Cons v vs)
  obtain r w1 where b: "body v w = (r, w1)" by (cases "body v w")
  have k: "map_of (files w1) n = map_of (files w) n" using Cons.prems[of v w] b by simp
  show ?case
  proof (cases r)
    case Raised
    with b k show ?thesis by simp
  next
    case (Returned u)
    have "map_of (files (snd (for_each_video body vs w1))) n = map_of (files w1) n"
      using Cons.prems by (intro Cons.IH) auto
    with b k Returned show ?thesis by simp
  qed
qed

lemma map_filter_concat_nth:
  assumes "\<forall>i<length trs. List.map_filter f (trs ! i) = [g i]"
  shows "List.map_filter f (concat trs) = map g [0..<length trs]"
  using assms
proof (induction trs rule: rev_induct)
  case Nil
  show ?case by (simp add: List.map_filter_simps)
next
  case (snoc t trs)
  have "\<forall>i<length trs. List.map_filter f (trs ! i) = [g i]"
  proof (intro allI impI)
    fix i assume i: "i < length trs"
    then show "List.map_filter f (trs ! i) = [g i]"
      using snoc.prems[rule_format, of i] by (simp add: nth_append)
  qed
  then have h: "List.map_filter f (concat trs) = map g [0..<length trs]" by (rule snoc.IH)
  have l: "List.map_filter f t = [g (length trs)]"
    using snoc.prems[rule_format, of "length trs"] by simp
  show ?case using h l by simp
qed

lemma nth_not_in_take: "distinct xs \<Longrightarrow> i < length xs \<Longrightarrow> xs ! i \<notin> set (take i xs)"
  by (metis distinct_take id_take_nth_drop not_distinct_conv_prefix append.assoc append_Cons)

lemma nth_not_in_drop: "distinct xs \<Longrightarrow> i < length xs \<Longrightarrow> xs ! i \<notin> set (drop (Suc i) xs)"
  by (metis Cons_nth_drop_Suc distinct.simps(2) distinct_drop)

lemma files_to_remove_last: "n \<in> set files_to_remove \<Longrightarrow> last n \<noteq> CHR ''4''"
  by (auto simp: files_to_remove_def)

lemma files_to_remove_not_mp4: "n \<in> set files_to_remove \<Longrightarrow> \<not> is_mp4 n"
  using last_is_mp4 files_to_remove_last by blast

lemma glob_mp4_write_file: "\<not> is_mp4 n \<Longrightarrow> glob_mp4 (write_file d n c) = glob_mp4 d"
  by (simp add: glob_mp4_def write_file_def update_keys)

lemma glob_mp4_remove_file: "\<not> is_mp4 n \<Longrightarrow> glob_mp4 (remove_file d n) = glob_mp4 d"
proof -
  assume n: "\<not> is_mp4 n"
  have "filter is_mp4 (removeAll n xs) = filter is_mp4 xs" for xs
    using n by (induction xs) auto
  then show ?thesis by (simp add: glob_mp4_def remove_file_def delete_keys)
qed

lemma not_mp4_thumbnail: "\<not> is_mp4 ''thumbnail.jpg''"
  by (simp add: is_mp4_def)

lemma prepare_thumbnail_shapes:
  assumes "prepare_thumbnail e w = (th, w1)"
  shows "\<exists>tr. trace w1 = trace w @ tr
      \<and> (\<forall>ev\<in>set tr. started ev = None \<and> tagging_report ev = None \<and> ev \<noteq> Print Cleaning_up)
      \<and> (th = None \<or> th = Some ''thumbnail.jpg'')
      \<and> (th \<noteq> None \<longrightarrow> path_exists (files w1) ''thumbnail.jpg'')
      \<and> (th \<noteq> None \<longleftrightarrow> Print Cover_converted \<in> set tr)
      \<and> glob_mp4 (files w1) = glob_mp4 (files w)
      \<and> (find_cover_image (files w) = None \<longrightarrow> tr = [Print No_cover_image] \<and> files w1 = files w)"
proof (cases "find_cover_image (files w)")
  case None
  with assms have "th = None" "w1 = say No_cover_image w"
    by (simp_all add: prepare_thumbnail_def)
  with None show ?thesis by simp
next
  case (Some c)
  let ?cmd = "[''ffmpeg'', ''-i'', c, ''-vf'', ''scale=160:120'', ''-q:v'', ''2'', ''-y'',
      ''thumbnail.jpg'']"
  let ?w0 = "say (Found_cover_image c) w"
  show ?thesis
  proof (cases "ffmpeg e (files w) ?cmd")
    case (Tool_ok x)
    with Some assms have "th = Some ''thumbnail.jpg''"
      "w1 = say Cover_converted
         (?w0\<lparr>trace := trace ?w0 @ [Subprocess ?cmd],
               files := write_file (files w) ''thumbnail.jpg'' x\<rparr>)"
      by (simp_all add: prepare_thumbnail_def convert_to_psp_thumbnail_def subprocess_run_def
          Let_def)
    with Some show ?thesis
      by (simp add: glob_mp4_write_file not_mp4_thumbnail)
  next
    case (Tool_failed part)
    with Some assms have th: "th = None"
      and w1: "w1 = say Cover_conversion_failed (say Error_converting_image
         (?w0\<lparr>trace := trace ?w0 @ [Subprocess ?cmd],
               files := (case part of None \<Rightarrow> files w
                         | Some p \<Rightarrow> write_file (files w) ''thumbnail.jpg'' p)\<rparr>))"
      by (auto simp: prepare_thumbnail_def convert_to_psp_thumbnail_def subprocess_run_def
          Let_def split: option.splits)
    have "glob_mp4 (files w1) = glob_mp4 (files w)"
      unfolding w1 by (cases part) (simp_all add: glob_mp4_write_file not_mp4_thumbnail)
    with th w1 Some show ?thesis by simp
  qed
qed

lemma prepare_thumbnail_other:
  assumes "n \<noteq> ''thumbnail.jpg''"
  shows "map_of (files (snd (prepare_thumbnail e w))) n = map_of (files w) n"
  using assms
  by (simp add: prepare_thumbnail_def convert_to_psp_thumbnail_def subprocess_run_def Let_def
      split: option.splits tool_result.splits)

lemma thm_not_removed: "with_suffix v ''.THM'' \<notin> set files_to_remove"
proof
  assume "with_suffix v ''.THM'' \<in> set files_to_remove"
  then have "last (with_suffix v ''.THM'') \<noteq> CHR ''M''"
    by (auto simp: files_to_remove_def)
  then show False by (simp add: last_with_suffix)
qed

lemma remove_each_trace:
  "remove_each e fs (k, w) = (k', w') \<Longrightarrow>
     \<exists>tr. trace w' = trace w @ tr
       \<and> (\<forall>ev\<in>set tr. \<exists>n. ev = Print (Removed n) \<or> ev = Print (Failed_to_remove n))"
proof (induction fs arbitrary: k w)
  case Nil
  then show ?case by simp
next
  case (Cons f fs)
  show ?case
  proof (cases "path_exists (files w) f")
    case False
    with Cons.prems have "remove_each e fs (k, w) = (k', w')" by simp
    from Cons.IH[OF this] show ?thesis .
  next
    case True
    show ?thesis
    proof (cases "unlink_fails e (files w) f")
      case fails: True
      with True Cons.prems have "remove_each e fs (k, say (Failed_to_remove f) w) = (k', w')"
        by simp
      from Cons.IH[OF this] obtain tr where "trace w' = trace w @ Print (Failed_to_remove f) # tr"
        "\<forall>ev\<in>set tr. \<exists>n. ev = Print (Removed n) \<or> ev = Print (Failed_to_remove n)"
        by auto
      then show ?thesis by (intro exI[of _ "Print (Failed_to_remove f) # tr"]) auto
    next
      case ok: False
      with True Cons.prems have "remove_each e fs
          (Suc k, say (Removed f) (w\<lparr>files := remove_file (files w) f\<rparr>)) = (k', w')"
        by simp
      from Cons.IH[OF this] obtain tr where "trace w' = trace w @ Print (Removed f) # tr"
        "\<forall>ev\<in>set tr. \<exists>n. ev = Print (Removed n) \<or> ev = Print (Failed_to_remove n)"
        by auto
      then show ?thesis by (intro exI[of _ "Print (Removed f) # tr"]) auto
    qed
  qed
qed

lemma cleanup_trace:
  "\<exists>tr. trace (cleanup_for_psp e w) = trace w @ Print Cleaning_up # tr
     \<and> (\<forall>ev\<in>set tr. started ev = None \<and> tagging_report ev = None \<and> subprocess_cmd ev = None
           \<and> (\<forall>v. ev \<noteq> Print (Metadata_added v)) \<and> ev \<noteq> Print Cover_converted)"
proof -
  obtain k' w' where r: "remove_each e files_to_remove (0, say Cleaning_up w) = (k', w')"
    by (cases "remove_each e files_to_remove (0, say Cleaning_up w)")
  from remove_each_trace[OF r] obtain tr where tr: "trace w' = trace w @ Print Cleaning_up # tr"
    "\<forall>ev\<in>set tr. \<exists>n. ev = Print (Removed n) \<or> ev = Print (Failed_to_remove n)"
    by auto
  have q: "\<forall>ev\<in>set tr. started ev = None \<and> tagging_report ev = None \<and> subprocess_cmd ev = None
           \<and> (\<forall>v. ev \<noteq> Print (Metadata_added v)) \<and> ev \<noteq> Print Cover_converted"
    using tr(2) by auto
  show ?thesis
  proof (cases "0 < k'")
    case True
    with r tr(1) have "trace (cleanup_for_psp e w)
        = trace w @ Print Cleaning_up # (tr @ [Print (Cleaned_up k'), Print Now_compatible])"
      by (simp add: cleanup_for_psp_def)
    moreover have "\<forall>ev\<in>set (tr @ [Print (Cleaned_up k'), Print Now_compatible]).
        started ev = None \<and> tagging_report ev = None \<and> subprocess_cmd ev = None
           \<and> (\<forall>v. ev \<noteq> Print (Metadata_added v)) \<and> ev \<noteq> Print Cover_converted"
      using q by auto
    ultimately show ?thesis by blast
  next
    case False
    with r tr(1) have "trace (cleanup_for_psp e w)
        = trace w @ Print Cleaning_up # (tr @ [Print Nothing_to_clean])"
      by (simp add: cleanup_for_psp_def)
    moreover have "\<forall>ev\<in>set (tr @ [Print Nothing_to_clean]).
        started ev = None \<and> tagging_report ev = None \<and> subprocess_cmd ev = None
           \<and> (\<forall>v. ev \<noteq> Print (Metadata_added v)) \<and> ev \<noteq> Print Cover_converted"
      using q by auto
    ultimately show ?thesis by blast
  qed
qed


lemma extract_nonempty: "extract_episode_number s = Some t \<Longrightarrow> t \<noteq> []"
  by (auto simp: extract_episode_number_def split: option.splits)

lemma tv_metadata_eq:
  "tv_metadata s v =
     [(''title'', stem v), (''album'', s), (''show'', s)]
     @ (case extract_episode_number (stem v) of None \<Rightarrow> [] | Some tag \<Rightarrow> [(''episode_id'', tag)])"
  using extract_nonempty[of "stem v"]
  by (auto simp: tv_metadata_def Let_def split: option.splits)

lemma process_movie_file_cmd:
  "\<exists>tr. trace (snd (process_movie_file e th v w))
       = trace w @ Print (Processing v) # Subprocess (remux_cmd v (movie_metadata v)) # tr
     \<and> List.map_filter subprocess_cmd tr = []"
proof -
  obtain r w' where t: "tag_video e th v (movie_metadata v) (say (Processing v) w) = (r, w')"
    by (cases "tag_video e th v (movie_metadata v) (say (Processing v) w)")
  from tag_video_shapes[OF t] obtain tr where
    "trace w' = trace w @ Print (Processing v) # Subprocess (remux_cmd v (movie_metadata v)) # tr"
    "List.map_filter subprocess_cmd tr = []"
    by auto
  with t show ?thesis by (simp add: process_movie_file_def)
qed

lemma process_tv_file_cmd:
  "\<exists>tr. trace (snd (process_tv_file e s th v w))
       = trace w @ Print (Processing v)
           # (case extract_episode_number (stem v) of None \<Rightarrow> []
              | Some tag \<Rightarrow> [Print (Episode tag)])
           @ Subprocess (remux_cmd v (tv_metadata s v)) # tr
     \<and> List.map_filter subprocess_cmd tr = []"
proof -
  let ?w2 = "case extract_episode_number (stem v) of None \<Rightarrow> say (Processing v) w
      | Some tag \<Rightarrow> if tag = [] then say (Processing v) w
                    else say (Episode tag) (say (Processing v) w)"
  have w2: "trace ?w2 = trace w @ Print (Processing v)
      # (case extract_episode_number (stem v) of None \<Rightarrow> [] | Some tag \<Rightarrow> [Print (Episode tag)])"
    using extract_nonempty[of "stem v"] by (auto split: option.splits)
  obtain r w' where t: "tag_video e th v (tv_metadata s v) ?w2 = (r, w')"
    by (cases "tag_video e th v (tv_metadata s v) ?w2")
  from tag_video_shapes[OF t] obtain tr where
    "trace w' = trace ?w2 @ Subprocess (remux_cmd v (tv_metadata s v)) # tr"
    "List.map_filter subprocess_cmd tr = []"
    by auto
  with t w2 show ?thesis by (simp add: process_tv_file_def Let_def)
qed

lemma for_each_video_cmds:
  assumes "\<And>v w. \<exists>tr. trace (snd (body v w)) = trace w @ tr
      \<and> List.map_filter subprocess_cmd tr = [cmd v]"
  shows "\<exists>k tr. k \<le> length vs
      \<and> (fst (for_each_video body vs w) = Returned () \<longrightarrow> k = length vs)
      \<and> trace (snd (for_each_video body vs w)) = trace w @ tr
      \<and> List.map_filter subprocess_cmd tr = map cmd (take k vs)"
proof (induction vs arbitrary: w)
  case Nil
  show ?case by simp
next
  case (Cons v vs)
  obtain r w1 where b: "body v w = (r, w1)" by (cases "body v w")
  from assms[of v w] b obtain tr1 where t1: "trace w1 = trace w @ tr1"
    "List.map_filter subprocess_cmd tr1 = [cmd v]" by auto
  show ?case
  proof (cases r)
    case Raised
    with b have "for_each_video body (v # vs) w = (Raised, w1)" by simp
    with t1 show ?thesis by (intro exI[of _ 1] exI[of _ tr1]) simp
  next
    case (Returned u)
    with b have f: "for_each_video body (v # vs) w = for_each_video body vs w1" by simp
    from Cons.IH[of w1] obtain k tr where k: "k \<le> length vs"
      "fst (for_each_video body vs w1) = Returned () \<longrightarrow> k = length vs"
      "trace (snd (for_each_video body vs w1)) = trace w1 @ tr"
      "List.map_filter subprocess_cmd tr = map cmd (take k vs)" by blast
    with f t1 show ?thesis by (intro exI[of _ "Suc k"] exI[of _ "tr1 @ tr"]) simp
  qed
qed

text \<open>Cleanup removes the listed names and nothing else.\<close>

lemma remove_each_files:
  "remove_each e fs (k, w) = (k', w') \<Longrightarrow>
     (n \<notin> set fs \<longrightarrow> map_of (files w') n = map_of (files w) n)
     \<and> (map_of (files w') n = map_of (files w) n \<or> map_of (files w') n = None)
     \<and> (n \<in> set fs \<and> path_exists (files w') n \<longrightarrow> Print (Failed_to_remove n) \<in> set (trace w'))
     \<and> ((\<forall>d. \<not> unlink_fails e d n) \<and> n \<in> set fs \<longrightarrow> \<not> path_exists (files w') n)
     \<and> ((\<forall>f\<in>set fs. \<not> is_mp4 f) \<longrightarrow> glob_mp4 (files w') = glob_mp4 (files w))"
proof (induction fs arbitrary: k w)
  case Nil
  then show ?case by simp
next
  case (Cons f fs)
  show ?case
  proof (cases "path_exists (files w) f")
    case False
    with Cons.prems have r: "remove_each e fs (k, w) = (k', w')" by simp
    from Cons.IH[OF r] False show ?thesis
      by (auto simp: path_exists_def)
  next
    case True
    show ?thesis
    proof (cases "unlink_fails e (files w) f")
      case fails: True
      with True Cons.prems have r: "remove_each e fs (k, say (Failed_to_remove f) w) = (k', w')"
        by simp
      from remove_each_trace[OF r] have "Print (Failed_to_remove f) \<in> set (trace w')" by auto
      with Cons.IH[OF r] fails show ?thesis by auto
    next
      case ok: False
      with True Cons.prems have r: "remove_each e fs
          (Suc k, say (Removed f) (w\<lparr>files := remove_file (files w) f\<rparr>)) = (k', w')"
        by simp
      from Cons.IH[OF r] show ?thesis
        by (auto simp: path_exists_def glob_mp4_remove_file split: if_splits)
    qed
  qed
qed

lemma cleanup_frame:
  "(\<forall>n\<in>set files_to_remove. path_exists (files (cleanup_for_psp e w)) n
        \<longrightarrow> Print (Failed_to_remove n) \<in> set (trace (cleanup_for_psp e w)))
   \<and> ((\<forall>d n. \<not> unlink_fails e d n)
        \<longrightarrow> (\<forall>n\<in>set files_to_remove. \<not> path_exists (files (cleanup_for_psp e w)) n))
   \<and> (\<forall>n. n \<notin> set files_to_remove
        \<longrightarrow> map_of (files (cleanup_for_psp e w)) n = map_of (files w) n)
   \<and> (\<forall>v. is_mp4 v \<longrightarrow> map_of (files (cleanup_for_psp e w)) v = map_of (files w) v)
   \<and> glob_mp4 (files (cleanup_for_psp e w)) = glob_mp4 (files w)
   \<and> files_to_remove = ''thumbnail.jpg'' # cover_patterns
   \<and> length files_to_remove = 16"
proof -
  obtain k' w' where r: "remove_each e files_to_remove (0, say Cleaning_up w) = (k', w')"
    by (cases "remove_each e files_to_remove (0, say Cleaning_up w)")
  have f: "files (cleanup_for_psp e w) = files w'"
    using r by (simp add: cleanup_for_psp_def)
  have t: "set (trace w') \<subseteq> set (trace (cleanup_for_psp e w))"
    using r by (auto simp: cleanup_for_psp_def)
  note h = remove_each_files[OF r]
  have a: "\<forall>n\<in>set files_to_remove. path_exists (files (cleanup_for_psp e w)) n
        \<longrightarrow> Print (Failed_to_remove n) \<in> set (trace (cleanup_for_psp e w))"
    using h t unfolding f by blast
  have b: "(\<forall>d n. \<not> unlink_fails e d n)
        \<longrightarrow> (\<forall>n\<in>set files_to_remove. \<not> path_exists (files (cleanup_for_psp e w)) n)"
    using h unfolding f by blast
  have c: "\<forall>n. n \<notin> set files_to_remove
        \<longrightarrow> map_of (files (cleanup_for_psp e w)) n = map_of (files w) n"
    using h unfolding f by simp
  have d: "\<forall>v. is_mp4 v \<longrightarrow> map_of (files (cleanup_for_psp e w)) v = map_of (files w) v"
    using c files_to_remove_not_mp4 by blast
  have g: "glob_mp4 (files (cleanup_for_psp e w)) = glob_mp4 (files w)"
    using h[of "[]"] files_to_remove_not_mp4 unfolding f by simp
  have l: "files_to_remove = ''thumbnail.jpg'' # cover_patterns" "length files_to_remove = 16"
    by (simp_all add: files_to_remove_def cover_patterns_def)
  from a b c d g l show ?thesis by blast
qed

text \<open>The outcome of a video, read in a later world and a longer trace.\<close>

lemma video_outcome_fst: "video_outcome e th md v wi w' report tr \<Longrightarrow> fst report = v"
  by (auto simp: video_outcome_def split: tool_result.splits)

lemma video_outcome_later:
  assumes "video_outcome e th md v wi w1 report tr"
    and "map_of (files w') v = map_of (files w1) v"
    and "map_of (files w') (with_suffix v ''.THM'') = map_of (files w1) (with_suffix v ''.THM'')"
    and "set tr \<subseteq> set tr'"
  shows "video_outcome e th md v wi w' report tr'"
  using assms
  by (auto simp: video_outcome_def split: tool_result.splits option.splits copy_result.splits)

text \<open>
  A batch whose tagger cannot raise, over a listing in which no video has the stem of
  another or the name of another's temporary file.
\<close>

lemma batch_isolated:
  assumes move: "\<forall>d v. rename_fails e d (with_suffix v ''.temp.mp4'') v
           \<longrightarrow> copy2_result e d (with_suffix v ''.temp.mp4'') v = Copy_ok"
    and unlink: "\<forall>d v. \<not> unlink_fails e d (with_suffix v ''.temp.mp4'')"
    and stems: "distinct (map stem (glob_mp4 (files w)))"
    and temps: "\<forall>u\<in>set (glob_mp4 (files w)).
           with_suffix u ''.temp.mp4'' \<notin> set (glob_mp4 (files w))"
    and body: "\<And>th v w. \<exists>pre. body th v w = tag_video e th v (md v) (w\<lparr>trace := trace w @ pre\<rparr>)
           \<and> List.map_filter started pre = [v] \<and> List.map_filter tagging_report pre = []
           \<and> Print Cleaning_up \<notin> set pre"
    and quiet: "started (Print m) = None" "tagging_report (Print m) = None" "m \<noteq> Cleaning_up"
    and run: "batch = (case prepare_thumbnail e (say m w) of
        (thumbnail_path, w1) \<Rightarrow>
          (let mp4_files = glob_mp4 (files w1);
               w2 = say (Found_mp4_files (length mp4_files)) w1
           in case for_each_video (body thumbnail_path) mp4_files w2 of
                (Returned u, w3) \<Rightarrow> (Returned (), cleanup_for_psp e w3)
              | (Raised, w3) \<Rightarrow> (Raised, w3)))"
  shows "isolated_batch e body md m w batch"
proof -
  obtain th w1 where p: "prepare_thumbnail e (say m w) = (th, w1)"
    by (cases "prepare_thumbnail e (say m w)")
  from prepare_thumbnail_shapes[OF p] obtain tr0 where p0:
    "trace w1 = trace w @ Print m # tr0"
    "\<forall>ev\<in>set tr0. started ev = None \<and> tagging_report ev = None \<and> ev \<noteq> Print Cleaning_up"
    "th = None \<or> th = Some ''thumbnail.jpg''"
    "th \<noteq> None \<longrightarrow> path_exists (files w1) ''thumbnail.jpg''"
    "glob_mp4 (files w1) = glob_mp4 (files w)"
    by auto
  have p1: "map_of (files w1) n = map_of (files w) n" if "n \<noteq> ''thumbnail.jpg''" for n
    using prepare_thumbnail_other[OF that, of e "say m w"] p by simp
  let ?vs = "glob_mp4 (files w)"
  let ?n = "length ?vs"
  let ?w2 = "say (Found_mp4_files ?n) w1"
  let ?W = "\<lambda>i. snd (for_each_video (body th) (take i ?vs) ?w2)"
  let ?I = "\<lambda>x. map_of (files x) ''thumbnail.jpg'' = map_of (files w1) ''thumbnail.jpg''"
  let ?Q = "\<lambda>v x x' tr. List.map_filter started tr = [v] \<and> Print Cleaning_up \<notin> set tr
      \<and> (\<exists>report. List.map_filter tagging_report tr = [report]
            \<and> video_outcome e th (md v) v x x' report tr)"
  have mp4: "is_mp4 v" if "v \<in> set ?vs" for v
    using that by (simp add: glob_mp4_def)
  have dist: "distinct ?vs" using stems by (simp add: distinct_map)
  have frame: "map_of (files (snd (body th v x))) n = map_of (files x) n"
    if "n \<noteq> v" "n \<noteq> with_suffix v ''.temp.mp4''" "n \<noteq> with_suffix v ''.THM''" for v x n
  proof -
    from body[of th v x] obtain pre where
      "body th v x = tag_video e th v (md v) (x\<lparr>trace := trace x @ pre\<rparr>)" by blast
    then show ?thesis using tag_video_other[OF that, of e th "md v" "x\<lparr>trace := trace x @ pre\<rparr>"]
      by simp
  qed
  have step: "\<exists>x' tr. body th v x = (Returned (), x') \<and> trace x' = trace x @ tr \<and> ?I x'
      \<and> ?Q v x x' tr" if v: "v \<in> set ?vs" and i: "?I x" for v x
  proof -
    from body[of th v x] obtain pre where
      b: "body th v x = tag_video e th v (md v) (x\<lparr>trace := trace x @ pre\<rparr>)"
      and pre: "List.map_filter started pre = [v]" "List.map_filter tagging_report pre = []"
        "Print Cleaning_up \<notin> set pre" by blast
    have inv: "th \<noteq> None \<longrightarrow> path_exists (files x) ''thumbnail.jpg''"
      using p0(4) i by (simp add: path_exists_def)
    have m: "\<forall>d. rename_fails e d (with_suffix v ''.temp.mp4'') v
           \<longrightarrow> copy2_result e d (with_suffix v ''.temp.mp4'') v = Copy_ok"
      using move by blast
    have u: "\<forall>d. \<not> unlink_fails e d (with_suffix v ''.temp.mp4'')" using unlink by blast
    from tag_video_calm[OF m u mp4[OF v] p0(3) inv, where w = "x\<lparr>trace := trace x @ pre\<rparr>"
        and pre = pre and md = "md v"] pre
    obtain x' tr report where t: "tag_video e th v (md v) (x\<lparr>trace := trace x @ pre\<rparr>)
        = (Returned (), x')" "trace x' = trace x @ tr"
      "List.map_filter started tr = [v]" "Print Cleaning_up \<notin> set tr"
      "List.map_filter tagging_report tr = [report]"
      "video_outcome e th (md v) v x x' report tr" by auto
    have "map_of (files (snd (body th v x))) ''thumbnail.jpg'' = map_of (files x) ''thumbnail.jpg''"
      using mp4_not_thumbnail[OF mp4[OF v]] thumbnail_not_temp[of v] thumbnail_not_thm[of v]
      by (intro frame) auto
    then have i': "?I x'" using b t(1) i by simp
    have r: "body th v x = (Returned (), x')" using b t(1) by simp
    from r t(2-6) i' show ?thesis by blast
  qed
  have i2: "?I ?w2" by simp
  from for_each_video_indexed[of ?vs ?I "body th" ?Q ?w2, OF step i2]
  obtain w3 trs where l: "for_each_video (body th) ?vs ?w2 = (Returned (), w3)"
    "trace w3 = trace ?w2 @ concat trs" "length trs = ?n"
    "\<forall>i<?n. ?I (?W i) \<and> ?Q (?vs ! i) (?W i) (?W (Suc i)) (trs ! i)"
    by blast
  let ?g = "\<lambda>i. hd (List.map_filter tagging_report (trs ! i))"
  have turn: "?I (?W i)" "List.map_filter started (trs ! i) = [?vs ! i]"
    "Print Cleaning_up \<notin> set (trs ! i)"
    "List.map_filter tagging_report (trs ! i) = [?g i]"
    "video_outcome e th (md (?vs ! i)) (?vs ! i) (?W i) (?W (Suc i)) (?g i) (trs ! i)"
    if "i < ?n" for i
    using l(4) that by auto
  have st: "List.map_filter started (concat trs) = ?vs"
  proof -
    have "List.map_filter started (concat trs) = map (\<lambda>i. ?vs ! i) [0..<length trs]"
      by (rule map_filter_concat_nth) (use turn(2) l(3) in simp)
    then show ?thesis using l(3) by (simp add: map_nth)
  qed
  have rp: "List.map_filter tagging_report (concat trs) = map ?g [0..<?n]"
    using map_filter_concat_nth[of trs tagging_report ?g] turn(4) l(3) by simp
  have rf: "map fst (List.map_filter tagging_report (concat trs)) = ?vs"
  proof (rule nth_equalityI)
    show "length (map fst (List.map_filter tagging_report (concat trs))) = ?n"
      by (simp add: rp)
    fix i assume "i < length (map fst (List.map_filter tagging_report (concat trs)))"
    then have i: "i < ?n" by (simp add: rp)
    then show "map fst (List.map_filter tagging_report (concat trs)) ! i = ?vs ! i"
      using video_outcome_fst[OF turn(5)[OF i]] by (simp add: rp)
  qed
  have nc: "Print Cleaning_up \<notin> set (concat trs)"
  proof
    assume "Print Cleaning_up \<in> set (concat trs)"
    then obtain t where "t \<in> set trs" "Print Cleaning_up \<in> set t" by auto
    then obtain i where "i < length trs" "Print Cleaning_up \<in> set (trs ! i)"
      by (auto simp: in_set_conv_nth)
    with turn(3) l(3) show False by simp
  qed
  from cleanup_trace[of e w3] obtain tr2 where t2:
    "trace (cleanup_for_psp e w3) = trace w3 @ Print Cleaning_up # tr2" by blast
  let ?w' = "cleanup_for_psp e w3"
  let ?tr1 = "Print m # tr0 @ Print (Found_mp4_files ?n) # concat trs"
  have b: "batch = (Returned (), ?w')"
    using run p l(1) p0(5) by (simp add: Let_def)
  have tr: "trace ?w' = trace w @ ?tr1 @ Print Cleaning_up # tr2"
    using t2 l(2) p0(1) by simp
  have q0: "List.map_filter started tr0 = []" "List.map_filter tagging_report tr0 = []"
    using p0(2) by (simp_all add: map_filter_quiet)
  have s1: "List.map_filter started ?tr1 = ?vs"
    using q0 st quiet by (simp add: List.map_filter_simps)
  have s2: "List.map_filter tagging_report ?tr1 = map ?g [0..<?n]"
    using q0 rp quiet by (simp add: List.map_filter_simps)
  have s2': "map fst (List.map_filter tagging_report ?tr1) = ?vs"
    using q0 rf quiet by (simp add: List.map_filter_simps)
  have s3: "Print Cleaning_up \<notin> set ?tr1"
    using p0(2) nc quiet by auto
  have each: "map_of (files (?W i)) (?vs ! i) = map_of (files w) (?vs ! i)
      \<and> map_of (files (?W i)) ''thumbnail.jpg'' = map_of (files w1) ''thumbnail.jpg''
      \<and> video_outcome e th (md (?vs ! i)) (?vs ! i) (?W i) ?w'
           (List.map_filter tagging_report ?tr1 ! i) ?tr1"
    if i: "i < ?n" for i
  proof -
    let ?v = "?vs ! i"
    have v: "?v \<in> set ?vs" using i by simp
    have before: "map_of (files (?W i)) ?v = map_of (files ?w2) ?v"
    proof (rule for_each_video_other)
      fix u x assume "u \<in> set (take i ?vs)"
      then have u: "u \<in> set ?vs" "?v \<noteq> u"
        using nth_not_in_take[OF dist i] by (auto dest: in_set_takeD)
      show "map_of (files (snd (body th u x))) ?v = map_of (files x) ?v"
        using u temps v mp4_not_thm[OF mp4[OF v], of u] by (intro frame) auto
    qed
    have a1: "map_of (files (?W i)) ?v = map_of (files w) ?v"
      using before p1[OF mp4_not_thumbnail[OF mp4[OF v]]] by simp
    have rest: "for_each_video (body th) (drop (Suc i) ?vs) (?W (Suc i)) = (Returned (), w3)"
      using for_each_video_rest[OF l(1), of "Suc i"] by simp
    have after: "map_of (files (snd (for_each_video (body th) (drop (Suc i) ?vs) (?W (Suc i))))) n
        = map_of (files (?W (Suc i))) n"
      if n: "n = ?v \<or> n = with_suffix ?v ''.THM''" for n
    proof (rule for_each_video_other)
      fix u x assume d: "u \<in> set (drop (Suc i) ?vs)"
      then have u: "u \<in> set ?vs" "?v \<noteq> u"
        using nth_not_in_drop[OF dist i] by (auto dest: in_set_dropD)
      have "stem ?v \<notin> set (drop (Suc i) (map stem ?vs))"
        using nth_not_in_drop[OF stems] i by simp
      then have su: "stem ?v \<noteq> stem u" using d by (auto simp: drop_map)
      show "map_of (files (snd (body th u x))) n = map_of (files x) n"
        using n u su temps v mp4_not_thm[OF mp4[OF v], of u] mp4_not_thm[OF mp4[OF u(1)], of ?v]
          thm_not_temp[of ?v u]
        by (intro frame) auto
    qed
    have fin: "map_of (files ?w') n = map_of (files (?W (Suc i))) n"
      if n: "n = ?v \<or> n = with_suffix ?v ''.THM''" for n
    proof -
      have "n \<notin> set files_to_remove"
        using n files_to_remove_not_mp4[of ?v] mp4[OF v] thm_not_removed[of ?v] by auto
      then have "map_of (files ?w') n = map_of (files w3) n"
        using cleanup_frame[of e w3] by blast
      with after[OF n] rest show ?thesis by simp
    qed
    have "trs ! i \<in> set trs" using i l(3) by simp
    then have sub: "set (trs ! i) \<subseteq> set ?tr1" by auto
    have "video_outcome e th (md ?v) ?v (?W i) ?w' (?g i) ?tr1"
      by (rule video_outcome_later[OF turn(5)[OF i] _ _ sub]) (simp_all add: fin)
    moreover have "List.map_filter tagging_report ?tr1 ! i = ?g i"
      unfolding s2 using i by simp
    ultimately show ?thesis using a1 turn(1)[OF i] by simp
  qed
  have "\<exists>w' tr1 tr2. batch = (Returned (), w')
      \<and> trace w' = trace w @ tr1 @ Print Cleaning_up # tr2
      \<and> Print Cleaning_up \<notin> set tr1
      \<and> List.map_filter started tr1 = ?vs
      \<and> map fst (List.map_filter tagging_report tr1) = ?vs
      \<and> (\<forall>i<?n. map_of (files (?W i)) (?vs ! i) = map_of (files w) (?vs ! i)
            \<and> map_of (files (?W i)) ''thumbnail.jpg'' = map_of (files w1) ''thumbnail.jpg''
            \<and> video_outcome e th (md (?vs ! i)) (?vs ! i) (?W i) w'
                 (List.map_filter tagging_report tr1 ! i) tr1)"
    using b tr s3 s1 s2' each by blast
  then show ?thesis
    unfolding isolated_batch_def p prod.case Let_def .
qed

lemma process_movie_file_body:
  "\<exists>pre. process_movie_file e th v w
       = tag_video e th v (movie_metadata v) (w\<lparr>trace := trace w @ pre\<rparr>)
     \<and> List.map_filter started pre = [v] \<and> List.map_filter tagging_report pre = []
     \<and> Print Cleaning_up \<notin> set pre"
  by (rule exI[of _ "[Print (Processing v)]"])
    (simp add: process_movie_file_def say_def List.map_filter_simps)

lemma process_tv_file_body:
  "\<exists>pre. process_tv_file e show_name th v w
       = tag_video e th v (tv_metadata show_name v) (w\<lparr>trace := trace w @ pre\<rparr>)
     \<and> List.map_filter started pre = [v] \<and> List.map_filter tagging_report pre = []
     \<and> Print Cleaning_up \<notin> set pre"
proof (cases "\<exists>tag. extract_episode_number (stem v) = Some tag \<and> tag \<noteq> []")
  case True
  then obtain tag where "extract_episode_number (stem v) = Some tag" "tag \<noteq> []" by blast
  then show ?thesis
    by (intro exI[of _ "[Print (Processing v), Print (Episode tag)]"])
      (simp add: process_tv_file_def say_def Let_def List.map_filter_simps)
next
  case False
  then have eq: "(case extract_episode_number (stem v) of None \<Rightarrow> say (Processing v) w
      | Some tag \<Rightarrow> if tag = [] then say (Processing v) w
                    else say (Episode tag) (say (Processing v) w)) = say (Processing v) w"
    by (auto split: option.splits)
  show ?thesis
    unfolding process_tv_file_def Let_def eq
    by (intro exI[of _ "[Print (Processing v)]"]) (simp add: say_def List.map_filter_simps)
qed

text \<open>
  Two listed videos have the same stem only when they are \<^verbatim>\<open>.mp4\<close> and
  \<^verbatim>\<open>.mp4.mp4\<close>: a name that ends in \<^verbatim>\<open>.mp4\<close> is its stem followed by \<^verbatim>\<open>.mp4\<close>,
  unless it is \<^verbatim>\<open>.mp4\<close> itself.
\<close>

lemma stem_mp4:
  assumes "is_mp4 v" "v \<noteq> ''.mp4''"
  shows "v = stem v @ ''.mp4''"
proof -
  from assms(1) have v: "v = take (length v - 4) v @ ''.mp4''" and l: "4 \<le> length v"
    unfolding is_mp4_def by (metis append_take_drop_id, simp)
  let ?p = "take (length v - 4) v"
  have pne: "?p \<noteq> []" using v assms(2) by auto
  have r: "rev v = ''4pm.'' @ rev ?p" by (subst v) simp
  have ext: "rev (takeWhile (\<lambda>c. c \<noteq> CHR ''.'') (rev v)) = ''mp4''"
    unfolding r by simp
  have dot: "CHR ''.'' \<in> set v" by (subst v) simp
  have len: "Suc (length ''mp4'') < length v" using pne by (simp add: take_eq_Nil)
  have "py_suffix v = ''.mp4''"
    using dot len unfolding py_suffix_def ext Let_def by simp
  then have "stem v = ?p" by (simp add: stem_def eval_nat_numeral)
  with v show ?thesis by simp
qed

lemma same_stem_videos:
  assumes "is_mp4 u" "is_mp4 v" "stem u = stem v" "u \<noteq> v"
  shows "{u, v} = {''.mp4'', ''.mp4.mp4''}"
proof -
  have s: "stem ''.mp4'' = ''.mp4''" by (simp add: stem_def py_suffix_def)
  have one: "y = ''.mp4.mp4''" if "is_mp4 y" "stem y = stem ''.mp4''" "y \<noteq> ''.mp4''" for y
    using stem_mp4[OF that(1,3)] that(2) s by simp
  show ?thesis
  proof (cases "u = ''.mp4''")
    case True
    with assms one[of v] show ?thesis by auto
  next
    case u: False
    show ?thesis
    proof (cases "v = ''.mp4''")
      case True
      with assms one[of u] show ?thesis by auto
    next
      case False
      with stem_mp4[OF assms(1) u] stem_mp4[OF assms(2) False] assms(3,4) show ?thesis
        by simp
    qed
  qed
qed

text \<open>
  What the shared sidecar costs: with \<^verbatim>\<open>.mp4\<close> and \<^verbatim>\<open>.mp4.mp4\<close> listed and a copy
  that fails part-way over an existing destination, both videos are tagged, the sidecar
  of the first is reported as created, and the turn of the second leaves it torn.
\<close>

lemma shared_sidecar_example:
  "stem ''.mp4'' = stem ''.mp4.mp4''
   \<and> List.map_filter tagging_report
        (trace (snd (process_movies
           ((sample_env [] False False)\<lparr>copy2_result :=
               \<lambda>d src dst. if map_of d dst = None then Copy_ok else Copy_failed (Some ''torn'')\<rparr>)
           \<lparr>files = [(''.mp4'', ''A''), (''cover.jpg'', ''C''), (''.mp4.mp4'', ''B'')],
            trace = []\<rparr>)))
       = [(''.mp4'', True), (''.mp4.mp4'', True)]
   \<and> files (snd (process_movies
           ((sample_env [] False False)\<lparr>copy2_result :=
               \<lambda>d src dst. if map_of d dst = None then Copy_ok else Copy_failed (Some ''torn'')\<rparr>)
           \<lparr>files = [(''.mp4'', ''A''), (''cover.jpg'', ''C''), (''.mp4.mp4'', ''B'')],
            trace = []\<rparr>))
       = [(''.mp4'', ''tagged A''), (''.mp4.mp4'', ''tagged B''), (''.mp4.THM'', ''torn'')]
   \<and> Print (Thumbnail_created ''.mp4'')
       \<in> set (trace (snd (process_movies
           ((sample_env [] False False)\<lparr>copy2_result :=
               \<lambda>d src dst. if map_of d dst = None then Copy_ok else Copy_failed (Some ''torn'')\<rparr>)
           \<lparr>files = [(''.mp4'', ''A''), (''cover.jpg'', ''C''), (''.mp4.mp4'', ''B'')],
            trace = []\<rparr>)))"
  by code_simp

section \<open>Properties of the tagger, the batch and the cleanup\<close>

text \<open>
  Claim C1, as the code has it. With \<open>temp\<close> the temporary path and \<open>d1\<close> the
  directory that the transcoder run leaves, for every environment:

    \<^item> the transcoder run changes the temporary path only, and the whole call changes
      the temporary path and the path of the video only;
    \<^item> when the call returns success, the video is the complete output of the
      transcoder and the temporary file is gone; when it returns failure, the
      transcoder has failed, the video is the original and no temporary file is left;
    \<^item> when the transcoder fails, the error is reported and the video is the original;
      the call returns failure, unless there is a temporary file whose removal raises:
      that exception is not caught, the call raises and the temporary file stays;
    \<^item> when the transcoder succeeds and the rename is not refused, the call returns
      success; when the rename is refused, \<^verbatim>\<open>shutil.move\<close> copies the temporary
      file over the video and removes it: after a complete copy the video is the
      output, and the call returns success, or raises with the temporary file left
      when the removal raises; a copy that fails raises, with the directory as the
      transcoder left it when nothing was written, and with what was written so far
      at the path of the video otherwise;
    \<^item> so, unless a refused rename is followed by a copy that fails part-way, the
      path of the video holds the original or the complete output, whatever the call
      returns or raises.
\<close>

theorem add_metadata_replaces_or_keeps:
  "(let temp = with_suffix video ''.temp.mp4'';
        cmd = remux_cmd video metadata;
        d1 = files (snd (subprocess_run e cmd temp w))
    in case add_metadata_to_video e video metadata w of
         (r, w') \<Rightarrow>
           temp \<noteq> video
           \<and> (\<forall>n. n \<noteq> temp \<longrightarrow> map_of d1 n = map_of (files w) n)
           \<and> (\<forall>n. n \<noteq> temp \<and> n \<noteq> video \<longrightarrow> map_of (files w') n = map_of (files w) n)
           \<and> (r = Returned True \<longrightarrow>
                 (\<exists>c. ffmpeg e (files w) cmd = Tool_ok c \<and> map_of (files w') video = Some c)
                 \<and> \<not> path_exists (files w') temp)
           \<and> (r = Returned False \<longrightarrow>
                 (\<exists>part. ffmpeg e (files w) cmd = Tool_failed part)
                 \<and> map_of (files w') video = map_of (files w) video
                 \<and> \<not> path_exists (files w') temp)
           \<and> (\<forall>part. ffmpeg e (files w) cmd = Tool_failed part \<longrightarrow>
                 Print (Error_adding_metadata video) \<in> set (trace w')
                 \<and> map_of (files w') video = map_of (files w) video
                 \<and> (if path_exists d1 temp \<and> unlink_fails e d1 temp
                     then r = Raised \<and> files w' = d1
                     else r = Returned False))
           \<and> (\<forall>c. ffmpeg e (files w) cmd = Tool_ok c \<longrightarrow>
                 map_of d1 temp = Some c
                 \<and> (if \<not> rename_fails e d1 temp video then r = Returned True
                     else (case copy2_result e d1 temp video of
                             Copy_ok \<Rightarrow>
                               map_of (files w') video = Some c
                               \<and> (if unlink_fails e (write_file d1 video c) temp
                                   then r = Raised \<and> map_of (files w') temp = Some c
                                   else r = Returned True)
                           | Copy_failed None \<Rightarrow> r = Raised \<and> files w' = d1
                           | Copy_failed (Some p) \<Rightarrow>
                               r = Raised \<and> map_of (files w') video = Some p
                               \<and> map_of (files w') temp = Some c)))
           \<and> ((\<forall>p. \<not> (rename_fails e d1 temp video
                         \<and> copy2_result e d1 temp video = Copy_failed (Some p)))
                 \<longrightarrow> map_of (files w') video = map_of (files w) video
                     \<or> (\<exists>c. ffmpeg e (files w) cmd = Tool_ok c
                            \<and> map_of (files w') video = Some c)))"
proof -
  let ?temp = "with_suffix video ''.temp.mp4''"
  let ?cmd = "remux_cmd video metadata"
  let ?w1 = "snd (subprocess_run e ?cmd ?temp w)"
  let ?d1 = "files ?w1"
  obtain r w' where rw: "add_metadata_to_video e video metadata w = (r, w')"
    by (cases "add_metadata_to_video e video metadata w")
  have neq: "?temp \<noteq> video" by (rule with_suffix_temp_neq)
  have run: "\<forall>n. n \<noteq> ?temp \<longrightarrow> map_of ?d1 n = map_of (files w) n"
    by (simp add: subprocess_run_other)
  have other: "\<forall>n. n \<noteq> ?temp \<and> n \<noteq> video \<longrightarrow> map_of (files w') n = map_of (files w) n"
    using add_metadata_other[of _ video e metadata w] rw by simp
  have v1: "map_of ?d1 video = map_of (files w) video"
    using run neq by (metis)
  have cases: "(r = Returned True \<longrightarrow>
                 (\<exists>c. ffmpeg e (files w) ?cmd = Tool_ok c \<and> map_of (files w') video = Some c)
                 \<and> \<not> path_exists (files w') ?temp)
           \<and> (r = Returned False \<longrightarrow>
                 (\<exists>part. ffmpeg e (files w) ?cmd = Tool_failed part)
                 \<and> map_of (files w') video = map_of (files w) video
                 \<and> \<not> path_exists (files w') ?temp)
           \<and> (\<forall>part. ffmpeg e (files w) ?cmd = Tool_failed part \<longrightarrow>
                 Print (Error_adding_metadata video) \<in> set (trace w')
                 \<and> map_of (files w') video = map_of (files w) video
                 \<and> (if path_exists ?d1 ?temp \<and> unlink_fails e ?d1 ?temp
                     then r = Raised \<and> files w' = ?d1
                     else r = Returned False))
           \<and> (\<forall>c. ffmpeg e (files w) ?cmd = Tool_ok c \<longrightarrow>
                 map_of ?d1 ?temp = Some c
                 \<and> (if \<not> rename_fails e ?d1 ?temp video then r = Returned True
                     else (case copy2_result e ?d1 ?temp video of
                             Copy_ok \<Rightarrow>
                               map_of (files w') video = Some c
                               \<and> (if unlink_fails e (write_file ?d1 video c) ?temp
                                   then r = Raised \<and> map_of (files w') ?temp = Some c
                                   else r = Returned True)
                           | Copy_failed None \<Rightarrow> r = Raised \<and> files w' = ?d1
                           | Copy_failed (Some p) \<Rightarrow>
                               r = Raised \<and> map_of (files w') video = Some p
                               \<and> map_of (files w') ?temp = Some c)))
           \<and> ((\<forall>p. \<not> (rename_fails e ?d1 ?temp video
                         \<and> copy2_result e ?d1 ?temp video = Copy_failed (Some p)))
                 \<longrightarrow> map_of (files w') video = map_of (files w) video
                     \<or> (\<exists>c. ffmpeg e (files w) ?cmd = Tool_ok c
                            \<and> map_of (files w') video = Some c))"
  proof (cases "ffmpeg e (files w) ?cmd")
    case (Tool_failed part)
    from rw have "(if path_exists ?d1 ?temp
         then (if unlink_fails e ?d1 ?temp
               then (Raised, say (Error_adding_metadata video) ?w1)
               else (Returned False,
                     (say (Error_adding_metadata video) ?w1)\<lparr>files := remove_file ?d1 ?temp\<rparr>))
         else (Returned False, say (Error_adding_metadata video) ?w1)) = (r, w')"
      unfolding add_metadata_failed[OF Tool_failed] Let_def .
    with Tool_failed v1 neq show ?thesis
      by (auto split: if_splits simp: path_exists_def)
  next
    case (Tool_ok c)
    have w1: "?w1 = w\<lparr>trace := trace w @ [Subprocess ?cmd], files := write_file (files w) ?temp c\<rparr>"
      by (simp add: subprocess_run_ok[OF Tool_ok])
    have t1: "map_of ?d1 ?temp = Some c" by (simp add: w1)
    from rw have mv: "(case shutil_move e ?temp video ?w1 of
           (Returned u, w2) \<Rightarrow> (Returned True, w2)
         | (Raised, w2) \<Rightarrow> (Raised, w2)) = (r, w')"
      unfolding add_metadata_ok[OF Tool_ok] Let_def .
    show ?thesis
    proof (cases "rename_fails e ?d1 ?temp video")
      case False
      from mv have "r = Returned True"
        "w' = ?w1\<lparr>files := write_file (remove_file ?d1 ?temp) video c\<rparr>"
        unfolding shutil_move_renamed[OF t1 False] by simp_all
      with Tool_ok t1 False neq show ?thesis by (simp add: path_exists_def)
    next
      case True
      show ?thesis
      proof (cases "copy2_result e ?d1 ?temp video")
        case Copy_ok
        from mv have "(if unlink_fails e (write_file ?d1 video c) ?temp
            then (Raised, ?w1\<lparr>files := write_file ?d1 video c\<rparr>)
            else (Returned True, ?w1\<lparr>files := write_file (remove_file ?d1 ?temp) video c\<rparr>))
            = (r, w')"
          unfolding shutil_move_copied[OF t1 True Copy_ok neq] by (simp split: if_splits)
        with Tool_ok t1 True Copy_ok neq show ?thesis
          by (auto split: if_splits simp: path_exists_def)
      next
        case (Copy_failed part)
        from mv have "r = Raised"
          "w' = ?w1\<lparr>files := (case part of None \<Rightarrow> ?d1 | Some p \<Rightarrow> write_file ?d1 video p)\<rparr>"
          unfolding shutil_move_torn[OF t1 True Copy_failed] by simp_all
        with Tool_ok t1 True Copy_failed neq v1 show ?thesis
          by (cases part) (auto simp: path_exists_def)
      qed
    qed
  qed
  from neq run other cases show ?thesis
    unfolding Let_def rw prod.case by blast
qed

text \<open>
  The theorem in the sample environment: a transcoder that fails on \<^verbatim>\<open>a.mp4\<close> and
  leaves a partial file, a successful run with the rename, and a successful run in
  which the rename is refused and the library copies.
\<close>

theorem add_metadata_replaces_or_keeps_witness:
  "ffmpeg (sample_env [''a.mp4''] False False) [(''a.mp4'', ''A'')]
       (remux_cmd ''a.mp4'' (movie_metadata ''a.mp4'')) = Tool_failed (Some ''partial'')
   \<and> add_metadata_to_video (sample_env [''a.mp4''] False False) ''a.mp4''
         (movie_metadata ''a.mp4'') \<lparr>files = [(''a.mp4'', ''A'')], trace = []\<rparr>
       = (Returned False,
          \<lparr>files = [(''a.mp4'', ''A'')],
           trace = [Subprocess (remux_cmd ''a.mp4'' (movie_metadata ''a.mp4'')),
                    Print (Error_adding_metadata ''a.mp4'')]\<rparr>)
   \<and> add_metadata_to_video (sample_env [] False False) ''a.mp4''
         (movie_metadata ''a.mp4'') \<lparr>files = [(''a.mp4'', ''A'')], trace = []\<rparr>
       = (Returned True,
          \<lparr>files = [(''a.mp4'', ''tagged A'')],
           trace = [Subprocess (remux_cmd ''a.mp4'' (movie_metadata ''a.mp4''))]\<rparr>)
   \<and> add_metadata_to_video (sample_env [] False True) ''a.mp4''
         (movie_metadata ''a.mp4'') \<lparr>files = [(''a.mp4'', ''A'')], trace = []\<rparr>
       = (Returned True,
          \<lparr>files = [(''a.mp4'', ''tagged A'')],
           trace = [Subprocess (remux_cmd ''a.mp4'' (movie_metadata ''a.mp4''))]\<rparr>)"
proof -
  let ?bad = "sample_env [''a.mp4''] False False"
  let ?good = "sample_env [] False False"
  let ?copy = "sample_env [] False True"
  let ?w = "\<lparr>files = [(''a.mp4'', ''A'')], trace = []\<rparr> :: string world"
  let ?md = "movie_metadata ''a.mp4''"
  let ?cmd = "remux_cmd ''a.mp4'' ?md"
  have f: "ffmpeg ?bad (files ?w) ?cmd = Tool_failed (Some ''partial'')"
    by code_simp
  have u: "\<not> unlink_fails ?bad d n" for d n
    by (simp add: sample_env_def)
  obtain r w' where rw: "add_metadata_to_video ?bad ''a.mp4'' ?md ?w = (r, w')"
    by (cases "add_metadata_to_video ?bad ''a.mp4'' ?md ?w")
  from add_metadata_replaces_or_keeps[where e = ?bad and video = "''a.mp4''"
      and metadata = ?md and w = ?w] f u
  have r: "r = Returned False" unfolding Let_def rw prod.case by simp
  have "w' = snd (add_metadata_to_video ?bad ''a.mp4'' ?md ?w)" using rw by simp
  also have "\<dots> = \<lparr>files = [(''a.mp4'', ''A'')],
           trace = [Subprocess ?cmd, Print (Error_adding_metadata ''a.mp4'')]\<rparr>"
    by code_simp
  finally have w': "w' = \<lparr>files = [(''a.mp4'', ''A'')],
           trace = [Subprocess ?cmd, Print (Error_adding_metadata ''a.mp4'')]\<rparr>" .
  have g: "ffmpeg ?good (files ?w) ?cmd = Tool_ok ''tagged A''" by code_simp
  have n: "\<not> rename_fails ?good d s t" for d s t
    by (simp add: sample_env_def)
  obtain r2 w2 where rw2: "add_metadata_to_video ?good ''a.mp4'' ?md ?w = (r2, w2)"
    by (cases "add_metadata_to_video ?good ''a.mp4'' ?md ?w")
  from add_metadata_replaces_or_keeps[where e = ?good and video = "''a.mp4''"
      and metadata = ?md and w = ?w] g n
  have r2: "r2 = Returned True" unfolding Let_def rw2 prod.case by simp
  have "w2 = snd (add_metadata_to_video ?good ''a.mp4'' ?md ?w)" using rw2 by simp
  also have "\<dots> = \<lparr>files = [(''a.mp4'', ''tagged A'')], trace = [Subprocess ?cmd]\<rparr>"
    by code_simp
  finally have w2: "w2 = \<lparr>files = [(''a.mp4'', ''tagged A'')], trace = [Subprocess ?cmd]\<rparr>" .
  have c: "add_metadata_to_video ?copy ''a.mp4'' ?md ?w
       = (Returned True, \<lparr>files = [(''a.mp4'', ''tagged A'')], trace = [Subprocess ?cmd]\<rparr>)"
    by code_simp
  from f rw r w' rw2 r2 w2 c show ?thesis by simp
qed

text \<open>
  Claim C1 as it is stated fails in three places. Where the transcoder has failed and
  the removal of the partial temporary file raises, the call raises instead of
  returning failure and the partial file stays. Where the rename is refused and the
  copy that \<^verbatim>\<open>shutil.move\<close> falls back to fails part-way, the call raises and the
  path of the video holds the part that was written. Where the rename is refused and,
  after the copy, the removal of the temporary file raises, the call raises although
  the video is replaced, and the temporary file stays.
\<close>

theorem add_metadata_uncaught_exceptions:
  "ffmpeg (sample_env [''a.mp4''] True False) [(''a.mp4'', ''A'')]
       (remux_cmd ''a.mp4'' (movie_metadata ''a.mp4'')) = Tool_failed (Some ''partial'')
   \<and> add_metadata_to_video (sample_env [''a.mp4''] True False) ''a.mp4''
         (movie_metadata ''a.mp4'') \<lparr>files = [(''a.mp4'', ''A'')], trace = []\<rparr>
       = (Raised,
          \<lparr>files = [(''a.mp4'', ''A''), (''a.temp.mp4'', ''partial'')],
           trace = [Subprocess (remux_cmd ''a.mp4'' (movie_metadata ''a.mp4'')),
                    Print (Error_adding_metadata ''a.mp4'')]\<rparr>)
   \<and> add_metadata_to_video
         ((sample_env [] False True)\<lparr>copy2_result := \<lambda>d src dst. Copy_failed (Some ''tag'')\<rparr>)
         ''a.mp4'' (movie_metadata ''a.mp4'') \<lparr>files = [(''a.mp4'', ''A'')], trace = []\<rparr>
       = (Raised,
          \<lparr>files = [(''a.mp4'', ''tag''), (''a.temp.mp4'', ''tagged A'')],
           trace = [Subprocess (remux_cmd ''a.mp4'' (movie_metadata ''a.mp4''))]\<rparr>)
   \<and> add_metadata_to_video (sample_env [] True True) ''a.mp4''
         (movie_metadata ''a.mp4'') \<lparr>files = [(''a.mp4'', ''A'')], trace = []\<rparr>
       = (Raised,
          \<lparr>files = [(''a.mp4'', ''tagged A''), (''a.temp.mp4'', ''tagged A'')],
           trace = [Subprocess (remux_cmd ''a.mp4'' (movie_metadata ''a.mp4''))]\<rparr>)"
  by code_simp

text \<open>
  Claim C3, as the code has it. Take an environment in which the tagger cannot raise:
  the move of a temporary file onto its video goes through (the rename, or else the
  copy that \<^verbatim>\<open>shutil.move\<close> falls back to) and the removal of a temporary file
  does not raise. Take a listing in which no video has the stem of another (so no two
  share a sidecar; only \<^verbatim>\<open>.mp4\<close> and \<^verbatim>\<open>.mp4.mp4\<close> could, lemmas
  \<open>same_stem_videos\<close> and \<open>shared_sidecar_example\<close>) and none has the name of the
  temporary file of a listed video.
  Then a batch run of either kind returns, \<^verbatim>\<open>run\<close> ends with status zero, and the
  failures are kept apart as \<open>isolated_batch\<close> says, whatever the transcoder, the
  copy of the thumbnail and the removals of the cleanup do: every listed video has its
  turn, in order, before the cleanup; its turn finds its file as the run found it; it
  is reported as tagged exactly when its own transcoder run succeeds, and then its
  file is the transcoder's output when the run has ended, and with a thumbnail its
  sidecar is copied: the sidecar is the thumbnail when the run has ended, or the
  failure of the copy is reported; when its transcoder run fails its file is the
  original when the run has ended.
\<close>

theorem batch_isolation:
  assumes "\<forall>d v. rename_fails e d (with_suffix v ''.temp.mp4'') v
             \<longrightarrow> copy2_result e d (with_suffix v ''.temp.mp4'') v = Copy_ok"
    and "\<forall>d v. \<not> unlink_fails e d (with_suffix v ''.temp.mp4'')"
    and "distinct (map stem (glob_mp4 (files w)))"
    and "\<forall>u\<in>set (glob_mp4 (files w)). with_suffix u ''.temp.mp4'' \<notin> set (glob_mp4 (files w))"
  shows "isolated_batch e (process_movie_file e) movie_metadata Processing_movies_in w
           (process_movies e w)
     \<and> fst (run e Movie w) = 0
     \<and> isolated_batch e (process_tv_file e show_name) (tv_metadata show_name)
           (Processing_tv_show_in show_name) w (process_tv_show e show_name w)
     \<and> fst (run e (Tv_show show_name) w) = 0"
proof -
  have m: "isolated_batch e (process_movie_file e) movie_metadata Processing_movies_in w
      (process_movies e w)"
    by (rule batch_isolated[OF assms process_movie_file_body])
      (simp_all add: process_movies_def)
  have t: "isolated_batch e (process_tv_file e show_name) (tv_metadata show_name)
      (Processing_tv_show_in show_name) w (process_tv_show e show_name w)"
    by (rule batch_isolated[OF assms process_tv_file_body])
      (simp_all add: process_tv_show_def)
  from m have "fst (process_movies e w) = Returned ()"
    by (auto simp: isolated_batch_def Let_def split: prod.splits)
  then have rm: "fst (run e Movie w) = 0"
    by (cases "process_movies e w") (simp add: run_def)
  from t have "fst (process_tv_show e show_name w) = Returned ()"
    by (auto simp: isolated_batch_def Let_def split: prod.splits)
  then have rt: "fst (run e (Tv_show show_name) w) = 0"
    by (cases "process_tv_show e show_name w") (simp add: run_def)
  from m rm t rt show ?thesis by blast
qed

text \<open>
  The theorem where the transcoder fails on \<^verbatim>\<open>a.mp4\<close> only: \<^verbatim>\<open>a.mp4\<close> is left as
  it was, \<^verbatim>\<open>b.mp4\<close> is tagged and gets its sidecar, the cover and the thumbnail are
  cleaned up; the same where every rename is refused and the library copies.
\<close>

theorem batch_isolation_witness:
  "isolated_batch (sample_env [''a.mp4''] False False)
      (process_movie_file (sample_env [''a.mp4''] False False)) movie_metadata
      Processing_movies_in
      \<lparr>files = [(''a.mp4'', ''A''), (''cover.jpg'', ''C''), (''b.mp4'', ''B'')], trace = []\<rparr>
      (process_movies (sample_env [''a.mp4''] False False)
         \<lparr>files = [(''a.mp4'', ''A''), (''cover.jpg'', ''C''), (''b.mp4'', ''B'')], trace = []\<rparr>)
   \<and> fst (run (sample_env [''a.mp4''] False False) Movie
        \<lparr>files = [(''a.mp4'', ''A''), (''cover.jpg'', ''C''), (''b.mp4'', ''B'')], trace = []\<rparr>) = 0
   \<and> List.map_filter tagging_report
        (trace (snd (process_movies (sample_env [''a.mp4''] False False)
           \<lparr>files = [(''a.mp4'', ''A''), (''cover.jpg'', ''C''), (''b.mp4'', ''B'')], trace = []\<rparr>)))
       = [(''a.mp4'', False), (''b.mp4'', True)]
   \<and> files (snd (process_movies (sample_env [''a.mp4''] False False)
           \<lparr>files = [(''a.mp4'', ''A''), (''cover.jpg'', ''C''), (''b.mp4'', ''B'')], trace = []\<rparr>))
       = [(''a.mp4'', ''A''), (''b.mp4'', ''tagged B''), (''b.THM'', ''tagged C'')]
   \<and> fst (run (sample_env [''a.mp4''] False True) (Tv_show ''Show'')
        \<lparr>files = [(''a.mp4'', ''A''), (''cover.jpg'', ''C''), (''b.mp4'', ''B'')], trace = []\<rparr>) = 0
   \<and> files (snd (process_tv_show (sample_env [''a.mp4''] False True) ''Show''
           \<lparr>files = [(''a.mp4'', ''A''), (''cover.jpg'', ''C''), (''b.mp4'', ''B'')], trace = []\<rparr>))
       = [(''a.mp4'', ''A''), (''b.mp4'', ''tagged B''), (''b.THM'', ''tagged C'')]"
proof -
  let ?e = "sample_env [''a.mp4''] False False"
  let ?c = "sample_env [''a.mp4''] False True"
  let ?w = "\<lparr>files = [(''a.mp4'', ''A''), (''cover.jpg'', ''C''), (''b.mp4'', ''B'')],
      trace = []\<rparr> :: string world"
  have m: "\<forall>d v. rename_fails ?e d (with_suffix v ''.temp.mp4'') v
             \<longrightarrow> copy2_result ?e d (with_suffix v ''.temp.mp4'') v = Copy_ok"
    by (simp add: sample_env_def)
  have u: "\<forall>d v. \<not> unlink_fails ?e d (with_suffix v ''.temp.mp4'')" by (simp add: sample_env_def)
  have mc: "\<forall>d v. rename_fails ?c d (with_suffix v ''.temp.mp4'') v
             \<longrightarrow> copy2_result ?c d (with_suffix v ''.temp.mp4'') v = Copy_ok"
    by (simp add: sample_env_def)
  have uc: "\<forall>d v. \<not> unlink_fails ?c d (with_suffix v ''.temp.mp4'')" by (simp add: sample_env_def)
  have s: "distinct (map stem (glob_mp4 (files ?w)))" by code_simp
  have t: "\<forall>u\<in>set (glob_mp4 (files ?w)). with_suffix u ''.temp.mp4'' \<notin> set (glob_mp4 (files ?w))"
    by code_simp
  from batch_isolation[OF m u s t] have r: "fst (run ?e Movie ?w) = 0"
    and b: "isolated_batch ?e (process_movie_file ?e) movie_metadata Processing_movies_in ?w
      (process_movies ?e ?w)" by blast+
  from batch_isolation[OF mc uc s t, of "''Show''"]
  have rc: "fst (run ?c (Tv_show ''Show'') ?w) = 0" by blast
  have tr: "List.map_filter tagging_report (trace (snd (process_movies ?e ?w)))
       = [(''a.mp4'', False), (''b.mp4'', True)]" by code_simp
  have f: "files (snd (process_movies ?e ?w))
       = [(''a.mp4'', ''A''), (''b.mp4'', ''tagged B''), (''b.THM'', ''tagged C'')]" by code_simp
  have fc: "files (snd (process_tv_show ?c ''Show'' ?w))
       = [(''a.mp4'', ''A''), (''b.mp4'', ''tagged B''), (''b.THM'', ''tagged C'')]" by code_simp
  from b r tr f rc fc show ?thesis by blast
qed

text \<open>
  Claim C3 as it is stated fails in three places. Where the rename of the temporary
  file of \<^verbatim>\<open>a.mp4\<close> is refused and the copy that \<^verbatim>\<open>shutil.move\<close> falls back to
  fails, and where the transcoder fails on \<^verbatim>\<open>a.mp4\<close> and the removal of the partial
  file raises, nothing in the loop catches the exception: \<^verbatim>\<open>b.mp4\<close> never gets its
  turn, the cleanup is not reached and \<^verbatim>\<open>run\<close> exits with status one. And where the
  listing holds \<^verbatim>\<open>a.mp4\<close> and \<^verbatim>\<open>a.temp.mp4\<close>, the failure of \<^verbatim>\<open>a.mp4\<close> raises
  nothing but takes the other video with it: the partial output is written over
  \<^verbatim>\<open>a.temp.mp4\<close>, the handler removes it, and its turn finds no file, though alone in
  the directory it is tagged.
\<close>

theorem batch_failures_not_isolated:
  "run ((sample_env [] False True)\<lparr>copy2_result := \<lambda>d src dst. Copy_failed (Some ''tag'')\<rparr>) Movie
     \<lparr>files = [(''a.mp4'', ''A''), (''b.mp4'', ''B'')], trace = []\<rparr>
   = (1, \<lparr>files = [(''a.mp4'', ''tag''), (''b.mp4'', ''B''), (''a.temp.mp4'', ''tagged A'')],
          trace = [Print Processing_movies_in, Print No_cover_image, Print (Found_mp4_files 2),
                   Print (Processing ''a.mp4''),
                   Subprocess (remux_cmd ''a.mp4'' (movie_metadata ''a.mp4'')),
                   Print Unexpected_error]\<rparr>)
   \<and> run (sample_env [''a.mp4''] True False) (Tv_show ''Show'')
     \<lparr>files = [(''a.mp4'', ''A''), (''b.mp4'', ''B'')], trace = []\<rparr>
   = (1, \<lparr>files = [(''a.mp4'', ''A''), (''b.mp4'', ''B''), (''a.temp.mp4'', ''partial'')],
          trace = [Print (Processing_tv_show_in ''Show''), Print No_cover_image,
                   Print (Found_mp4_files 2), Print (Processing ''a.mp4''),
                   Subprocess (remux_cmd ''a.mp4'' (tv_metadata ''Show'' ''a.mp4'')),
                   Print (Error_adding_metadata ''a.mp4''),
                   Print Unexpected_error]\<rparr>)
   \<and> fst (run (sample_env [''a.mp4''] False False) Movie
        \<lparr>files = [(''a.mp4'', ''A''), (''a.temp.mp4'', ''B'')], trace = []\<rparr>) = 0
   \<and> List.map_filter tagging_report
        (trace (snd (run (sample_env [''a.mp4''] False False) Movie
           \<lparr>files = [(''a.mp4'', ''A''), (''a.temp.mp4'', ''B'')], trace = []\<rparr>)))
       = [(''a.mp4'', False), (''a.temp.mp4'', False)]
   \<and> files (snd (run (sample_env [''a.mp4''] False False) Movie
        \<lparr>files = [(''a.mp4'', ''A''), (''a.temp.mp4'', ''B'')], trace = []\<rparr>))
       = [(''a.mp4'', ''A'')]
   \<and> files (snd (run (sample_env [''a.mp4''] False False) Movie
        \<lparr>files = [(''a.temp.mp4'', ''B'')], trace = []\<rparr>))
       = [(''a.temp.mp4'', ''tagged B'')]"
  by code_simp

text \<open>
  Claim C4. The movie loop passes the transcoder the items \<open>title\<close> (the stem of the
  file name) and \<open>album\<close> (\<^verbatim>\<open>Movies\<close>) and nothing else; the TV loop passes \<open>title\<close>,
  \<open>album\<close> and \<open>show\<close> (both the name of the show), and \<open>episode_id\<close> exactly when
  \<^verbatim>\<open>extract_episode_number\<close> of the stem returns a tag, with that tag as its value.
  The one transcoder command of a video's turn is made of these items.
\<close>

theorem metadata_mappings:
  "movie_metadata v = [(''title'', stem v), (''album'', ''Movies'')]
   \<and> remux_cmd v (movie_metadata v) =
       [''ffmpeg'', ''-i'', v, ''-c'', ''copy'', ''-metadata'', ''title='' @ stem v,
        ''-metadata'', ''album=Movies'', ''-y'', with_suffix v ''.temp.mp4'']
   \<and> tv_metadata s v =
       [(''title'', stem v), (''album'', s), (''show'', s)]
       @ (case extract_episode_number (stem v) of
            None \<Rightarrow> [] | Some tag \<Rightarrow> [(''episode_id'', tag)])
   \<and> dom (map_of (movie_metadata v)) = {''title'', ''album''}
   \<and> dom (map_of (tv_metadata s v)) =
       {''title'', ''album'', ''show''}
       \<union> (if extract_episode_number (stem v) = None then {} else {''episode_id''})
   \<and> map_of (tv_metadata s v) ''title'' = Some (stem v)
   \<and> map_of (tv_metadata s v) ''album'' = Some s
   \<and> map_of (tv_metadata s v) ''show'' = Some s
   \<and> map_of (tv_metadata s v) ''episode_id'' = extract_episode_number (stem v)
   \<and> (\<exists>tr. trace (snd (process_movie_file e th v w))
         = trace w @ Print (Processing v) # Subprocess (remux_cmd v (movie_metadata v)) # tr
       \<and> List.map_filter subprocess_cmd tr = [])
   \<and> (\<exists>tr. trace (snd (process_tv_file e s th v w))
         = trace w @ Print (Processing v)
             # (case extract_episode_number (stem v) of None \<Rightarrow> []
                | Some tag \<Rightarrow> [Print (Episode tag)])
             @ Subprocess (remux_cmd v (tv_metadata s v)) # tr
       \<and> List.map_filter subprocess_cmd tr = [])"
proof (intro conjI)
  show "movie_metadata v = [(''title'', stem v), (''album'', ''Movies'')]"
    by (simp add: movie_metadata_def)
  show "remux_cmd v (movie_metadata v) =
       [''ffmpeg'', ''-i'', v, ''-c'', ''copy'', ''-metadata'', ''title='' @ stem v,
        ''-metadata'', ''album=Movies'', ''-y'', with_suffix v ''.temp.mp4'']"
    by (simp add: movie_metadata_def remux_cmd_def)
  show "tv_metadata s v =
       [(''title'', stem v), (''album'', s), (''show'', s)]
       @ (case extract_episode_number (stem v) of
            None \<Rightarrow> [] | Some tag \<Rightarrow> [(''episode_id'', tag)])"
    by (rule tv_metadata_eq)
  show "dom (map_of (movie_metadata v)) = {''title'', ''album''}"
    by (auto simp: movie_metadata_def split: if_splits)
  show "dom (map_of (tv_metadata s v)) =
       {''title'', ''album'', ''show''}
       \<union> (if extract_episode_number (stem v) = None then {} else {''episode_id''})"
    unfolding tv_metadata_eq by (auto split: option.splits if_splits)
  show "map_of (tv_metadata s v) ''title'' = Some (stem v)"
    unfolding tv_metadata_eq by simp
  show "map_of (tv_metadata s v) ''album'' = Some s"
    unfolding tv_metadata_eq by simp
  show "map_of (tv_metadata s v) ''show'' = Some s"
    unfolding tv_metadata_eq by simp
  show "map_of (tv_metadata s v) ''episode_id'' = extract_episode_number (stem v)"
    unfolding tv_metadata_eq by (simp split: option.splits)
  show "\<exists>tr. trace (snd (process_movie_file e th v w))
         = trace w @ Print (Processing v) # Subprocess (remux_cmd v (movie_metadata v)) # tr
       \<and> List.map_filter subprocess_cmd tr = []"
    by (rule process_movie_file_cmd)
  show "\<exists>tr. trace (snd (process_tv_file e s th v w))
         = trace w @ Print (Processing v)
             # (case extract_episode_number (stem v) of None \<Rightarrow> []
                | Some tag \<Rightarrow> [Print (Episode tag)])
             @ Subprocess (remux_cmd v (tv_metadata s v)) # tr
       \<and> List.map_filter subprocess_cmd tr = []"
    by (rule process_tv_file_cmd)
qed

text \<open>The theorem at \<^verbatim>\<open>Show.s1e2.mp4\<close>, \<^verbatim>\<open>randomfile.mp4\<close> and \<^verbatim>\<open>Heat.mp4\<close>.\<close>

theorem metadata_mappings_witness:
  "tv_metadata ''Show'' ''Show.s1e2.mp4'' =
     [(''title'', ''Show.s1e2''), (''album'', ''Show''), (''show'', ''Show''),
      (''episode_id'', ''S01E02'')]
   \<and> map_of (tv_metadata ''Show'' ''Show.s1e2.mp4'') ''episode_id'' = Some ''S01E02''
   \<and> tv_metadata ''Show'' ''randomfile.mp4'' =
     [(''title'', ''randomfile''), (''album'', ''Show''), (''show'', ''Show'')]
   \<and> movie_metadata ''Heat.mp4'' = [(''title'', ''Heat''), (''album'', ''Movies'')]"
proof -
  have e: "extract_episode_number (stem ''Show.s1e2.mp4'') = Some ''S01E02''" by code_simp
  have n: "extract_episode_number (stem ''randomfile.mp4'') = None" by code_simp
  have s: "stem ''Show.s1e2.mp4'' = ''Show.s1e2''" "stem ''randomfile.mp4'' = ''randomfile''"
    "stem ''Heat.mp4'' = ''Heat''" by code_simp+
  let ?e = "sample_env [] False False"
  let ?w = "\<lparr>files = [], trace = []\<rparr> :: string world"
  from metadata_mappings[where v = "''Show.s1e2.mp4''" and s = "''Show''" and e = ?e
      and th = None and w = ?w] e s
  have a: "tv_metadata ''Show'' ''Show.s1e2.mp4'' =
     [(''title'', ''Show.s1e2''), (''album'', ''Show''), (''show'', ''Show''),
      (''episode_id'', ''S01E02'')]"
    and b: "map_of (tv_metadata ''Show'' ''Show.s1e2.mp4'') ''episode_id'' = Some ''S01E02''"
    by simp_all
  from metadata_mappings[where v = "''randomfile.mp4''" and s = "''Show''" and e = ?e
      and th = None and w = ?w] n s
  have c: "tv_metadata ''Show'' ''randomfile.mp4'' =
     [(''title'', ''randomfile''), (''album'', ''Show''), (''show'', ''Show'')]"
    by simp
  from metadata_mappings[where v = "''Heat.mp4''" and s = "''Show''" and e = ?e
      and th = None and w = ?w] s
  have d: "movie_metadata ''Heat.mp4'' = [(''title'', ''Heat''), (''album'', ''Movies'')]"
    by simp
  from a b c d show ?thesis by blast
qed

text \<open>
  Claim C5. \<^verbatim>\<open>find_cover_image\<close> returns the first name of the candidate list that
  exists in the directory, and nothing when none exists; the list is the three
  spellings \<^verbatim>\<open>cover\<close>, \<^verbatim>\<open>Cover\<close>, \<^verbatim>\<open>COVER\<close>, each with the five extensions in
  order, fifteen names in all; a directory with \<^verbatim>\<open>cover.jpg\<close> and \<^verbatim>\<open>Cover.png\<close>
  gives \<^verbatim>\<open>cover.jpg\<close>.
\<close>

theorem find_cover_image_first:
  "(find_cover_image d = Some p \<longleftrightarrow>
      (\<exists>i<length cover_patterns. cover_patterns ! i = p \<and> path_exists d p
         \<and> (\<forall>j<i. \<not> path_exists d (cover_patterns ! j))))
   \<and> (find_cover_image d = None \<longleftrightarrow> (\<forall>p\<in>set cover_patterns. \<not> path_exists d p))
   \<and> cover_patterns =
       concat (map (\<lambda>n. map (\<lambda>x. n @ ''.'' @ x) [''jpg'', ''jpeg'', ''png'', ''bmp'', ''gif''])
                 [''cover'', ''Cover'', ''COVER''])
   \<and> length cover_patterns = 15
   \<and> (path_exists d ''cover.jpg'' \<and> path_exists d ''Cover.png''
        \<longrightarrow> find_cover_image d = Some ''cover.jpg'')"
proof (intro conjI impI)
  show "find_cover_image d = Some p \<longleftrightarrow>
      (\<exists>i<length cover_patterns. cover_patterns ! i = p \<and> path_exists d p
         \<and> (\<forall>j<i. \<not> path_exists d (cover_patterns ! j)))"
    unfolding find_cover_image_def find_Some_iff by auto
  show "find_cover_image d = None \<longleftrightarrow> (\<forall>p\<in>set cover_patterns. \<not> path_exists d p)"
    unfolding find_cover_image_def find_None_iff by auto
  show "cover_patterns =
       concat (map (\<lambda>n. map (\<lambda>x. n @ ''.'' @ x) [''jpg'', ''jpeg'', ''png'', ''bmp'', ''gif''])
                 [''cover'', ''Cover'', ''COVER''])"
    by (simp add: cover_patterns_def)
  show "length cover_patterns = 15" by (simp add: cover_patterns_def)
  assume "path_exists d ''cover.jpg'' \<and> path_exists d ''Cover.png''"
  then show "find_cover_image d = Some ''cover.jpg''"
    by (simp add: find_cover_image_def cover_patterns_def)
qed

text \<open>The theorem at a directory that lists \<^verbatim>\<open>Cover.png\<close> before \<^verbatim>\<open>cover.jpg\<close>.\<close>

theorem find_cover_image_first_witness:
  "path_exists [(''Cover.png'', 1::nat), (''b.mp4'', 2), (''cover.jpg'', 3)] ''cover.jpg''
   \<and> path_exists [(''Cover.png'', 1::nat), (''b.mp4'', 2), (''cover.jpg'', 3)] ''Cover.png''
   \<and> find_cover_image [(''Cover.png'', 1::nat), (''b.mp4'', 2), (''cover.jpg'', 3)] = Some ''cover.jpg''
   \<and> find_cover_image [(''b.mp4'', 2::nat)] = None"
proof -
  let ?d = "[(''Cover.png'', 1::nat), (''b.mp4'', 2), (''cover.jpg'', 3)]"
  have a: "path_exists ?d ''cover.jpg''" and b: "path_exists ?d ''Cover.png''"
    by (simp_all add: path_exists_def)
  from find_cover_image_first[of ?d] a b have c: "find_cover_image ?d = Some ''cover.jpg''"
    by blast
  have "\<forall>p\<in>set cover_patterns. \<not> path_exists [(''b.mp4'', 2::nat)] p"
    by (simp add: cover_patterns_def path_exists_def)
  with find_cover_image_first[of "[(''b.mp4'', 2::nat)]"]
  have "find_cover_image [(''b.mp4'', 2::nat)] = None" by blast
  with a b c show ?thesis by blast
qed

text \<open>
  Claim C8 at a directory that holds the videos \<^verbatim>\<open>a.mp4\<close> and \<^verbatim>\<open>a.temp.mp4\<close>, in
  either order, with a transcoder that never fails: the temporary file of \<^verbatim>\<open>a.mp4\<close>
  is \<^verbatim>\<open>a.temp.mp4\<close>, so tagging \<^verbatim>\<open>a.mp4\<close> overwrites the other video and renames
  it away. The run ends with status zero and \<^verbatim>\<open>a.temp.mp4\<close> is gone. (The cleanup
  itself keeps every video: lemma \<open>cleanup_frame\<close>.)
\<close>

theorem temp_name_collision_loses_video:
  "glob_mp4 [(''a.mp4'', ''A''), (''a.temp.mp4'', ''B'')] = [''a.mp4'', ''a.temp.mp4'']
   \<and> fst (run (sample_env [] False False) Movie
            \<lparr>files = [(''a.mp4'', ''A''), (''a.temp.mp4'', ''B'')], trace = []\<rparr>) = 0
   \<and> files (snd (run (sample_env [] False False) Movie
            \<lparr>files = [(''a.mp4'', ''A''), (''a.temp.mp4'', ''B'')], trace = []\<rparr>))
       = [(''a.mp4'', ''tagged A'')]
   \<and> files (snd (run (sample_env [] False False) Movie
            \<lparr>files = [(''a.temp.mp4'', ''B''), (''a.mp4'', ''A'')], trace = []\<rparr>))
       = [(''a.mp4'', ''tagged A'')]"
  by code_simp

text \<open>
  Claim C9. In a directory without a cover image the transcoder commands of the movie
  pipeline are, in order, those of the listed videos (all of them when the run
  returns), each with the items \<open>title\<close>, the stem of the file name, and \<open>album\<close>,
  \<^verbatim>\<open>Movies\<close>: a function of the file name alone, whatever the directory holds and
  whatever the environment does, so a second run computes the same values.
\<close>

theorem movie_metadata_recomputed:
  assumes "find_cover_image (files w) = None"
  shows "\<exists>k tr. k \<le> length (glob_mp4 (files w))
      \<and> (fst (process_movies e w) = Returned () \<longrightarrow> k = length (glob_mp4 (files w)))
      \<and> trace (snd (process_movies e w)) = trace w @ tr
      \<and> List.map_filter subprocess_cmd tr =
          map (\<lambda>v. remux_cmd v [(''title'', stem v), (''album'', ''Movies'')])
            (take k (glob_mp4 (files w)))"
proof -
  let ?vs = "glob_mp4 (files w)"
  let ?w1 = "say No_cover_image (say Processing_movies_in w)"
  let ?w2 = "say (Found_mp4_files (length ?vs)) ?w1"
  let ?cmd = "\<lambda>v. remux_cmd v [(''title'', stem v), (''album'', ''Movies'')]"
  have p: "prepare_thumbnail e (say Processing_movies_in w) = (None, ?w1)"
    using assms by (simp add: prepare_thumbnail_def)
  have step: "\<exists>tr. trace (snd (process_movie_file e None v w')) = trace w' @ tr
      \<and> List.map_filter subprocess_cmd tr = [?cmd v]" for v w'
    using process_movie_file_cmd[of e None v w'] by (auto simp: movie_metadata_def)
  from for_each_video_cmds[of "process_movie_file e None" ?cmd ?vs ?w2, OF step]
  obtain k tr where k: "k \<le> length ?vs"
    "fst (for_each_video (process_movie_file e None) ?vs ?w2) = Returned () \<longrightarrow> k = length ?vs"
    "trace (snd (for_each_video (process_movie_file e None) ?vs ?w2)) = trace ?w2 @ tr"
    "List.map_filter subprocess_cmd tr = map ?cmd (take k ?vs)" by blast
  obtain r w3 where l: "for_each_video (process_movie_file e None) ?vs ?w2 = (r, w3)"
    by (cases "for_each_video (process_movie_file e None) ?vs ?w2")
  show ?thesis
  proof (cases r)
    case Raised
    with l p have "process_movies e w = (Raised, w3)"
      by (simp add: process_movies_def Let_def)
    with k l show ?thesis
      by (intro exI[of _ k] exI[of _ "Print Processing_movies_in # Print No_cover_image
            # Print (Found_mp4_files (length ?vs)) # tr"]) simp
  next
    case (Returned u)
    with l p have pm: "process_movies e w = (Returned (), cleanup_for_psp e w3)"
      by (simp add: process_movies_def Let_def)
    from cleanup_trace[of e w3] obtain tr2 where t2:
      "trace (cleanup_for_psp e w3) = trace w3 @ Print Cleaning_up # tr2"
      "\<forall>ev\<in>set tr2. subprocess_cmd ev = None" by blast
    then have "List.map_filter subprocess_cmd tr2 = []" by (simp add: map_filter_quiet)
    with pm k l t2(1) Returned show ?thesis
      by (intro exI[of _ k] exI[of _ "Print Processing_movies_in # Print No_cover_image
            # Print (Found_mp4_files (length ?vs)) # tr @ Print Cleaning_up # tr2"]) simp
  qed
qed

text \<open>The theorem at a first run and at the run that follows it on the tagged directory.\<close>

theorem movie_metadata_recomputed_witness:
  "find_cover_image [(''a.mp4'', ''A''), (''b.mp4'', ''B'')] = None
   \<and> List.map_filter subprocess_cmd
        (trace (snd (process_movies (sample_env [] False False)
           \<lparr>files = [(''a.mp4'', ''A''), (''b.mp4'', ''B'')], trace = []\<rparr>)))
       = [remux_cmd ''a.mp4'' [(''title'', ''a''), (''album'', ''Movies'')],
          remux_cmd ''b.mp4'' [(''title'', ''b''), (''album'', ''Movies'')]]
   \<and> List.map_filter subprocess_cmd
        (trace (snd (process_movies (sample_env [] False False)
           \<lparr>files = files (snd (process_movies (sample_env [] False False)
                \<lparr>files = [(''a.mp4'', ''A''), (''b.mp4'', ''B'')], trace = []\<rparr>)),
            trace = []\<rparr>)))
       = [remux_cmd ''a.mp4'' [(''title'', ''a''), (''album'', ''Movies'')],
          remux_cmd ''b.mp4'' [(''title'', ''b''), (''album'', ''Movies'')]]"
proof -
  let ?e = "sample_env [] False False"
  let ?w = "\<lparr>files = [(''a.mp4'', ''A''), (''b.mp4'', ''B'')], trace = []\<rparr> :: string world"
  have c: "find_cover_image (files ?w) = None" by code_simp
  have g: "glob_mp4 (files ?w) = [''a.mp4'', ''b.mp4'']" by code_simp
  have r: "fst (process_movies ?e ?w) = Returned ()" by code_simp
  have s: "stem ''a.mp4'' = ''a''" "stem ''b.mp4'' = ''b''" by code_simp+
  from movie_metadata_recomputed[OF c, of ?e] r g s
  have a: "List.map_filter subprocess_cmd (trace (snd (process_movies ?e ?w)))
       = [remux_cmd ''a.mp4'' [(''title'', ''a''), (''album'', ''Movies'')],
          remux_cmd ''b.mp4'' [(''title'', ''b''), (''album'', ''Movies'')]]"
    by auto
  have f2: "files (snd (process_movies ?e ?w)) = [(''a.mp4'', ''tagged A''), (''b.mp4'', ''tagged B'')]"
    by code_simp
  let ?w1 = "\<lparr>files = [(''a.mp4'', ''tagged A''), (''b.mp4'', ''tagged B'')], trace = []\<rparr> :: string world"
  have c1: "find_cover_image (files ?w1) = None" by code_simp
  have g1: "glob_mp4 (files ?w1) = [''a.mp4'', ''b.mp4'']" by code_simp
  have r1: "fst (process_movies ?e ?w1) = Returned ()" by code_simp
  from movie_metadata_recomputed[OF c1, of ?e] r1 g1 s
  have b: "List.map_filter subprocess_cmd (trace (snd (process_movies ?e ?w1)))
       = [remux_cmd ''a.mp4'' [(''title'', ''a''), (''album'', ''Movies'')],
          remux_cmd ''b.mp4'' [(''title'', ''b''), (''album'', ''Movies'')]]"
    by auto
  from c a b f2 show ?thesis by simp
qed

end
